theory Spec2Isabelle
  imports Complex_Main "HOL-Library.Log_Nat"
begin

section \<open>JavaScript strings, BigInt literals and errors\<close>

text \<open>
  The numeric conversion routines of \<^verbatim>\<open>src/lib.js\<close> work on JavaScript strings,
  BigInt values and Numbers. A string is modelled as a \<^typ>\<open>string\<close> (a list of
  characters, one per code unit; every code unit that is not an ASCII digit or a dot is
  treated alike by the code), a BigInt as an \<^typ>\<open>int\<close>, and an exception as the
  left summand of a sum type.
\<close>

datatype js_error = SyntaxError | RangeError

definition is_digit :: "char \<Rightarrow> bool" where
  "is_digit c = (48 \<le> (of_char c :: int) \<and> (of_char c :: int) \<le> 57)"

definition digit_char :: "int \<Rightarrow> char" where
  "digit_char d = char_of (48 + d)"

definition digit_val :: "char \<Rightarrow> int" where
  "digit_val c = of_char c - 48"

text \<open>
  \<^verbatim>\<open>BigInt.prototype.toString()\<close>: base 10, no leading zeros, a minus sign for
  negatives. \<open>decimal_digits\<close> writes a non-negative integer.
\<close>

function decimal_digits :: "int \<Rightarrow> string" where
  "decimal_digits n =
     (if n < 10 then [digit_char n]
      else decimal_digits (n div 10) @ [digit_char (n mod 10)])"
  by pat_completeness auto
termination
  by (relation "measure nat") auto

declare decimal_digits.simps [simp del]

definition bigint_toString :: "int \<Rightarrow> string" where
  "bigint_toString n =
     (if n < 0 then CHR ''-'' # decimal_digits (- n) else decimal_digits n)"

text \<open>The number a string of decimal digits denotes, most significant digit first.\<close>

definition digits_value :: "string \<Rightarrow> int" where
  "digits_value s = foldl (\<lambda>acc c. 10 * acc + digit_val c) 0 s"

text \<open>
  \<^verbatim>\<open>String.prototype.trim\<close>: the white space and line terminator code units below 256
  (tab, line feed, vertical tab, form feed, carriage return, space, no-break space).
\<close>

definition is_whitespace :: "char \<Rightarrow> bool" where
  "is_whitespace c = ((of_char c :: int) \<in> {9, 10, 11, 12, 13, 32, 160})"

definition js_trim :: "string \<Rightarrow> string" where
  "js_trim s = rev (dropWhile is_whitespace (rev (dropWhile is_whitespace s)))"

text \<open>\<^verbatim>\<open>s.slice(i, j)\<close> for non-negative \<open>i\<close> and \<open>j\<close>; \<^verbatim>\<open>s.slice(i)\<close> is \<^term>\<open>drop i s\<close>.\<close>

definition js_slice :: "nat \<Rightarrow> nat \<Rightarrow> string \<Rightarrow> string" where
  "js_slice i j s = take (j - i) (drop i s)"

text \<open>\<^verbatim>\<open>s.padStart(n, c)\<close> with a one-character filler.\<close>

definition padStart :: "nat \<Rightarrow> char \<Rightarrow> string \<Rightarrow> string" where
  "padStart n c s = replicate (n - length s) c @ s"

text \<open>\<^verbatim>\<open>s.indexOf(c)\<close>; \<^term>\<open>None\<close> stands for \<open>-1\<close>.\<close>

definition indexOf :: "char \<Rightarrow> string \<Rightarrow> nat option" where
  "indexOf c s = (if c \<in> set s then Some (length (takeWhile (\<lambda>x. x \<noteq> c) s)) else None)"

text \<open>\<^verbatim>\<open>s.split(c)\<close>: the pieces between the separators, never an empty array.\<close>

fun split_on :: "char \<Rightarrow> string \<Rightarrow> string list" where
  "split_on sep [] = [[]]"
| "split_on sep (c # cs) =
     (if c = sep then [] # split_on sep cs
      else (case split_on sep cs of [] \<Rightarrow> [[c]] | p # ps \<Rightarrow> (c # p) # ps))"

text \<open>
  \<^verbatim>\<open>BigInt(string)\<close> (StringToBigInt): white space is trimmed, the empty string is
  \<open>0n\<close>, a decimal literal may carry a sign, and an unsigned literal may be hexadecimal,
  octal or binary; anything else throws a SyntaxError.
\<close>

definition radix_digit_val :: "char \<Rightarrow> int" where
  "radix_digit_val c =
     (let k = (of_char c :: int) in
      if 48 \<le> k \<and> k \<le> 57 then k - 48
      else if 97 \<le> k \<and> k \<le> 122 then k - 87
      else if 65 \<le> k \<and> k \<le> 90 then k - 55
      else 36)"

definition radix_literal :: "int \<Rightarrow> string \<Rightarrow> js_error + int" where
  "radix_literal b s =
     (if s \<noteq> [] \<and> list_all (\<lambda>c. radix_digit_val c < b) s
      then Inr (foldl (\<lambda>acc c. b * acc + radix_digit_val c) 0 s)
      else Inl SyntaxError)"

definition string_to_bigint :: "string \<Rightarrow> js_error + int" where
  "string_to_bigint s =
     (let t = js_trim s in
      if t = [] then Inr 0
      else if list_all is_digit t then Inr (digits_value t)
      else if hd t = CHR ''-'' \<and> tl t \<noteq> [] \<and> list_all is_digit (tl t)
        then Inr (- digits_value (tl t))
      else if hd t = CHR ''+'' \<and> tl t \<noteq> [] \<and> list_all is_digit (tl t)
        then Inr (digits_value (tl t))
      else if take 2 t = ''0x'' \<or> take 2 t = ''0X'' then radix_literal 16 (drop 2 t)
      else if take 2 t = ''0o'' \<or> take 2 t = ''0O'' then radix_literal 8 (drop 2 t)
      else if take 2 t = ''0b'' \<or> take 2 t = ''0B'' then radix_literal 2 (drop 2 t)
      else Inl SyntaxError)"

text \<open>BigInt division truncates toward zero and throws a RangeError on a zero divisor.\<close>

definition bigint_divide :: "int \<Rightarrow> int \<Rightarrow> js_error + int" where
  "bigint_divide a b =
     (if b = 0 then Inl RangeError else Inr (sgn a * sgn b * (\<bar>a\<bar> div \<bar>b\<bar>)))"

section \<open>Numbers: IEEE 754 binary64\<close>

text \<open>
  A Number is a finite binary64 value, given by the rational it denotes, an infinity or
  NaN. The two zeros are identified: the operations used by the code (\<^verbatim>\<open>*\<close>, \<^verbatim>\<open>+\<close>,
  unary minus and \<^verbatim>\<open>=== 0\<close>) do not tell them apart beyond the sign of a zero result.
  Every operation computes the exact rational result and rounds it to the nearest
  binary64 value, ties to even, with gradual underflow and overflow to infinity.
\<close>

datatype float64 = Finite rat | PosInfinity | NegInfinity | NaN

definition pow2 :: "int \<Rightarrow> rat" where
  "pow2 e = (if 0 \<le> e then 2 ^ nat e else 1 / 2 ^ nat (- e))"

definition round_half_even :: "rat \<Rightarrow> int" where
  "round_half_even q =
     (let f = \<lfloor>q\<rfloor>; r = q - of_int f in
      if r < 1 / 2 then f
      else if 1 / 2 < r then f + 1
      else if even f then f else f + 1)"

text \<open>
  The exponent of the last mantissa bit of a positive rational \<open>a\<close>: the \<open>e\<close> with
  \<open>2^52 \<le> a / 2^e < 2^53\<close>, but not below the subnormal exponent \<open>-1074\<close>.
\<close>

definition float64_exponent :: "rat \<Rightarrow> int" where
  "float64_exponent a =
     (let e0 = bitlen (fst (quotient_of a)) - bitlen (snd (quotient_of a)) - 53;
          e = (if 2 ^ 53 \<le> a / pow2 e0 then e0 + 1 else e0)
      in max e (- 1074))"

text \<open>
  Rounding to nearest, ties to even. The largest finite value is \<open>(2^53 - 1) * 2^971\<close>:
  a rounded mantissa that needs a larger exponent, or \<open>2^53\<close> at exponent \<open>971\<close>,
  overflows to an infinity.
\<close>

definition round_to_float64 :: "rat \<Rightarrow> float64" where
  "round_to_float64 x =
     (if x = 0 then Finite 0
      else
        let a = \<bar>x\<bar>;
            e = float64_exponent a;
            m = round_half_even (a / pow2 e)
        in if 971 < e \<or> (e = 971 \<and> 2 ^ 53 \<le> m)
           then (if x < 0 then NegInfinity else PosInfinity)
           else Finite (if x < 0 then - (of_int m * pow2 e) else of_int m * pow2 e))"

fun f64_neg :: "float64 \<Rightarrow> float64" where
  "f64_neg (Finite a) = Finite (- a)"
| "f64_neg PosInfinity = NegInfinity"
| "f64_neg NegInfinity = PosInfinity"
| "f64_neg NaN = NaN"

fun f64_mul :: "float64 \<Rightarrow> float64 \<Rightarrow> float64" where
  "f64_mul NaN y = NaN"
| "f64_mul x NaN = NaN"
| "f64_mul (Finite a) (Finite b) = round_to_float64 (a * b)"
| "f64_mul (Finite a) PosInfinity =
     (if a = 0 then NaN else if 0 < a then PosInfinity else NegInfinity)"
| "f64_mul (Finite a) NegInfinity =
     (if a = 0 then NaN else if 0 < a then NegInfinity else PosInfinity)"
| "f64_mul PosInfinity (Finite b) =
     (if b = 0 then NaN else if 0 < b then PosInfinity else NegInfinity)"
| "f64_mul NegInfinity (Finite b) =
     (if b = 0 then NaN else if 0 < b then NegInfinity else PosInfinity)"
| "f64_mul PosInfinity PosInfinity = PosInfinity"
| "f64_mul PosInfinity NegInfinity = NegInfinity"
| "f64_mul NegInfinity PosInfinity = NegInfinity"
| "f64_mul NegInfinity NegInfinity = PosInfinity"

fun f64_add :: "float64 \<Rightarrow> float64 \<Rightarrow> float64" where
  "f64_add NaN y = NaN"
| "f64_add x NaN = NaN"
| "f64_add (Finite a) (Finite b) = round_to_float64 (a + b)"
| "f64_add (Finite a) PosInfinity = PosInfinity"
| "f64_add (Finite a) NegInfinity = NegInfinity"
| "f64_add PosInfinity (Finite b) = PosInfinity"
| "f64_add NegInfinity (Finite b) = NegInfinity"
| "f64_add PosInfinity PosInfinity = PosInfinity"
| "f64_add PosInfinity NegInfinity = NaN"
| "f64_add NegInfinity PosInfinity = NaN"
| "f64_add NegInfinity NegInfinity = NegInfinity"

text \<open>\<^verbatim>\<open>x === 0\<close> on Numbers.\<close>

definition f64_is_zero :: "float64 \<Rightarrow> bool" where
  "f64_is_zero x = (x = Finite 0)"

text \<open>
  \<^verbatim>\<open>Number(s)\<close> on the strings the code passes to it, which are slices of a BigInt's
  decimal string: decimal digits with at most a leading minus sign. The empty string is 0
  and a lone minus sign is NaN.
\<close>

definition js_Number :: "string \<Rightarrow> float64" where
  "js_Number s =
     (if s = [] then Finite 0
      else if list_all is_digit s then round_to_float64 (of_int (digits_value s))
      else if hd s = CHR ''-'' \<and> tl s \<noteq> [] \<and> list_all is_digit (tl s)
        then f64_neg (round_to_float64 (of_int (digits_value (tl s))))
      else NaN)"

text \<open>
  \<^verbatim>\<open>Math.pow(10, n)\<close> and \<^verbatim>\<open>10 ** n\<close> for a non-negative integer \<open>n\<close>. ECMAScript
  leaves the result implementation-approximated. The powers up to \<open>10^22\<close> are
  binary64 values and are returned as they are; a larger power is not a binary64 value,
  and what the engine returns for it is the parameter \<open>approx\<close>, about which nothing is
  assumed. Every function that raises 10 to a power takes this parameter.
\<close>

definition math_pow10 :: "(nat \<Rightarrow> float64) \<Rightarrow> nat \<Rightarrow> float64" where
  "math_pow10 approx n = (if n \<le> 22 then Finite (10 ^ n) else approx n)"

text \<open>\<^verbatim>\<open>BigInt(x)\<close> for a Number \<open>x\<close>: a RangeError unless \<open>x\<close> is an integer.\<close>

fun number_to_bigint :: "float64 \<Rightarrow> js_error + int" where
  "number_to_bigint (Finite r) = (if of_int \<lfloor>r\<rfloor> = r then Inr \<lfloor>r\<rfloor> else Inl RangeError)"
| "number_to_bigint PosInfinity = Inl RangeError"
| "number_to_bigint NegInfinity = Inl RangeError"
| "number_to_bigint NaN = Inl RangeError"

section \<open>The conversion routines of \<^verbatim>\<open>src/lib.js\<close>\<close>

subsection \<open>\<^verbatim>\<open>big2num\<close>\<close>


subsection \<open>\<^verbatim>\<open>bigxnum2big\<close>\<close>

text \<open>\<^verbatim>\<open>s.replace(/\.0*$/, '')\<close>: the leftmost dot that only zeros follow is cut off with them.\<close>

fun trim_dot_zeros :: "string \<Rightarrow> string" where
  "trim_dot_zeros [] = []"
| "trim_dot_zeros (c # cs) =
     (if c = CHR ''.'' \<and> list_all (\<lambda>x. x = CHR ''0'') cs then [] else c # trim_dot_zeros cs)"

definition bigxnum2big :: "(nat \<Rightarrow> float64) \<Rightarrow> int \<Rightarrow> string \<Rightarrow> js_error + int" where
  "bigxnum2big approx bigIntNum stringNum0 =
     (let stringNum = trim_dot_zeros (js_trim stringNum0) in
      case indexOf (CHR ''.'') stringNum of
        None \<Rightarrow>
          (case string_to_bigint stringNum of
             Inl e \<Rightarrow> Inl e
           | Inr f \<Rightarrow> Inr (f * bigIntNum))
      | Some decimalPosition \<Rightarrow>
          (let decimalPlaces = length stringNum - decimalPosition - 1;
               numberWithoutDecimal = remove1 (CHR ''.'') stringNum
           in (case string_to_bigint numberWithoutDecimal of
                 Inl e \<Rightarrow> Inl e
               | Inr f \<Rightarrow>
                   (let scaledResult = f * bigIntNum
                    in (case number_to_bigint (math_pow10 approx decimalPlaces) of
                          Inl e \<Rightarrow> Inl e
                        | Inr p \<Rightarrow> bigint_divide scaledResult p)))))"

subsection \<open>\<^verbatim>\<open>bigxnum2num\<close>\<close>

text \<open>
  The first loop, \<^verbatim>\<open>for (let i = str.length; i > 0; i -= 15)\<close>, puts each 15-character
  slice in front of the chunks found so far. The index is a natural number: its truncated
  subtraction is the \<^verbatim>\<open>Math.max(0, i - 15)\<close> of the slice's start, and the loop ends when
  it reaches 0.
\<close>

fun make_chunks :: "string \<Rightarrow> nat \<Rightarrow> float64 list \<Rightarrow> float64 list" where
  "make_chunks str i chunks =
     (if 0 < i then make_chunks str (i - 15) (js_Number (js_slice (i - 15) i str) # chunks)
      else chunks)"

declare make_chunks.simps [simp del]

text \<open>The second loop, over the chunks from index \<open>i\<close> on, with the running \<open>result\<close>.\<close>

fun sum_chunks ::
  "(nat \<Rightarrow> float64) \<Rightarrow> float64 list \<Rightarrow> float64 \<Rightarrow> nat \<Rightarrow> float64 \<Rightarrow> float64" where
  "sum_chunks approx [] floatNum i result = result"
| "sum_chunks approx (c # cs) floatNum i result =
     sum_chunks approx cs floatNum (i + 1)
       (f64_add result (f64_mul (f64_mul c floatNum) (math_pow10 approx (15 * i))))"

definition bigxnum2num :: "(nat \<Rightarrow> float64) \<Rightarrow> int \<Rightarrow> float64 \<Rightarrow> float64" where
  "bigxnum2num approx bigIntNum floatNum =
     (if f64_is_zero floatNum then Finite 0
      else if bigIntNum = 0 then Finite 0
      else
        let bigIntStr = bigint_toString bigIntNum;
            chunks = make_chunks bigIntStr (length bigIntStr) []
        in sum_chunks approx chunks floatNum 0 (Finite 0))"

subsection \<open>\<^verbatim>\<open>big2str\<close>\<close>

definition big2str :: "int \<Rightarrow> nat \<Rightarrow> string" where
  "big2str amount decimals =
     (let amountString = bigint_toString amount;
          amountString = padStart decimals (CHR ''0'') amountString;
          insertPosition = length amountString - decimals
      in if insertPosition = 0 then ''0.'' @ amountString
         else js_slice 0 insertPosition amountString @ ''.'' @ drop insertPosition amountString)"

subsection \<open>\<^verbatim>\<open>normalizeUnsignedFloat\<close>\<close>

text \<open>
  The branch for a string with a dot, on the pieces of \<^verbatim>\<open>normalized.split('.')\<close>. The
  second assignment builds on \<open>wholePart\<close>, not on the string the first one made. A
  string with a dot always has two pieces, so the last case is never reached.
\<close>

definition limit_parts :: "string \<Rightarrow> string list \<Rightarrow> string" where
  "limit_parts normalized parts =
     (case parts of
        wholePart # decimalPart # rest \<Rightarrow>
          let normalized =
                (if 9 < length wholePart then js_slice 0 9 wholePart @ ''.'' @ decimalPart
                 else normalized);
              normalized =
                (if decimalPart \<noteq> [] \<and> 18 < length decimalPart
                 then wholePart @ ''.'' @ js_slice 0 18 decimalPart
                 else normalized)
          in normalized
      | _ \<Rightarrow> normalized)"

definition normalizeUnsignedFloat :: "string \<Rightarrow> string" where
  "normalizeUnsignedFloat value =
     (if value = [] then []
      else
        let normalized = filter (\<lambda>c. is_digit c \<or> c = CHR ''.'') value
        in if normalized \<noteq> [] \<and> list_all (\<lambda>c. c = CHR ''0'') normalized then ''0''
           else
             let normalized = dropWhile (\<lambda>c. c = CHR ''0'') normalized;
                 normalized =
                   (case indexOf (CHR ''.'') normalized of
                      None \<Rightarrow> normalized
                    | Some firstDot \<Rightarrow>
                        js_slice 0 (firstDot + 1) normalized @
                        filter (\<lambda>c. c \<noteq> CHR ''.'') (drop (firstDot + 1) normalized));
                 normalized =
                   (if take 1 normalized = ''.'' then CHR ''0'' # normalized else normalized)
             in if CHR ''.'' \<in> set normalized
                then limit_parts normalized (split_on (CHR ''.'') normalized)
                else if 9 < length normalized then js_slice 0 9 normalized
                else normalized)"

section \<open>Reference operations of the specification\<close>

subsection \<open>The DecimalString grammar\<close>

text \<open>
  Modelled from the spec: the DecimalString grammar of section 3,
  \<^verbatim>\<open>^(0|[1-9][0-9]{0,8})(\.[0-9]{1,18})?$\<close>, which the repository states nowhere.
  Its integer part is a bare \<open>0\<close>, or up to nine digits of which the first is not \<open>0\<close>.
\<close>

definition canonical_integer_part :: "string \<Rightarrow> bool" where
  "canonical_integer_part w =
     (w = ''0'' \<or> (w \<noteq> [] \<and> list_all is_digit w \<and> hd w \<noteq> CHR ''0'' \<and> length w \<le> 9))"

text \<open>
  The whole grammar, with the least number of fractional digits as a parameter:
  \<open>matches_decimal 1\<close> is the DecimalString grammar, and \<open>matches_decimal 0\<close> also
  admits a decimal point that no digit follows.
\<close>

definition matches_decimal :: "nat \<Rightarrow> string \<Rightarrow> bool" where
  "matches_decimal minFraction s =
     (let w = takeWhile (\<lambda>c. c \<noteq> CHR ''.'') s;
          r = dropWhile (\<lambda>c. c \<noteq> CHR ''.'') s
      in canonical_integer_part w \<and>
         (r = [] \<or>
          (list_all is_digit (tl r) \<and> minFraction \<le> length (tl r) \<and> length (tl r) \<le> 18)))"

definition is_DecimalString :: "string \<Rightarrow> bool" where
  "is_DecimalString s = matches_decimal 1 s"

subsection \<open>\<^verbatim>\<open>parse\<close>\<close>

text \<open>
  Modelled from the spec: \<^verbatim>\<open>parse\<close>, the inverse of \<^verbatim>\<open>format\<close>, which the repository
  does not implement (section 4.2 of the specification). Text outside the DecimalString
  grammar is rejected; the text is split on the decimal point, the fractional part is
  right-padded with zeros to \<open>decimals\<close> digits, or the operation fails when it is longer;
  the two digit strings are concatenated and read as an integer.
\<close>

datatype parse_error = InvalidFormat | PrecisionOverflow

definition parse :: "string \<Rightarrow> nat \<Rightarrow> parse_error + int" where
  "parse text decimals =
     (if \<not> is_DecimalString text then Inl InvalidFormat
      else
        let integerPart = takeWhile (\<lambda>c. c \<noteq> CHR ''.'') text;
            fractionalPart = tl (dropWhile (\<lambda>c. c \<noteq> CHR ''.'') text)
        in if decimals < length fractionalPart then Inl PrecisionOverflow
           else Inr (digits_value
                  (integerPart @ fractionalPart @
                   replicate (decimals - length fractionalPart) (CHR ''0''))))"

subsection \<open>\<^verbatim>\<open>approximateWithFactor\<close> as the specification words it\<close>

text \<open>
  Section 4.4: the chunk at index \<open>i\<close>, the most significant being at index 0, has the
  positional weight \<open>10^(15 * (numChunks - 1 - i))\<close>, and the result is the sum over the
  chunks of \<open>chunkValue * weight * factor\<close>. The chunks are those of the code.
\<close>

definition spec_approximateWithFactor ::
  "(nat \<Rightarrow> float64) \<Rightarrow> int \<Rightarrow> float64 \<Rightarrow> float64" where
  "spec_approximateWithFactor approx amount factor =
     (if f64_is_zero factor then Finite 0
      else if amount = 0 then Finite 0
      else
        let str = bigint_toString amount;
            chunks = make_chunks str (length str) [];
            numChunks = length chunks
        in foldl f64_add (Finite 0)
             (map (\<lambda>i. f64_mul (f64_mul (chunks ! i) (math_pow10 approx (15 * (numChunks - 1 - i)))) factor)
                [0..<numChunks]))"

text \<open>The number of chunks of an amount, and the binary64 machine epsilon.\<close>

definition num_chunks :: "int \<Rightarrow> nat" where
  "num_chunks amount =
     length (make_chunks (bigint_toString amount) (length (bigint_toString amount)) [])"

definition float64_epsilon :: rat where
  "float64_epsilon = 1 / 2 ^ 52"

section \<open>Auxiliary notions\<close>

text \<open>The digits before and after the decimal point of \<open>big2str a d\<close>.\<close>

definition whole_digits :: "int \<Rightarrow> nat \<Rightarrow> string" where
  "whole_digits a d =
     (if length (decimal_digits a) \<le> d then ''0''
      else take (length (decimal_digits a) - d) (decimal_digits a))"

definition fraction_digits :: "int \<Rightarrow> nat \<Rightarrow> string" where
  "fraction_digits a d =
     (if length (decimal_digits a) \<le> d
      then replicate (d - length (decimal_digits a)) (CHR ''0'') @ decimal_digits a
      else drop (length (decimal_digits a) - d) (decimal_digits a))"

text \<open>
  For \<open>normalizeUnsignedFloat\<close>: the characters the first replacement keeps, the digits
  before the first dot once the leading zeros are gone, the digits after the first dot,
  and the steps of the function that follow the removal of the leading zeros.
\<close>

definition kept :: "string \<Rightarrow> string" where
  "kept value = filter (\<lambda>c. is_digit c \<or> c = CHR ''.'') value"

definition integer_digits :: "string \<Rightarrow> string" where
  "integer_digits value =
     takeWhile (\<lambda>c. c \<noteq> CHR ''.'') (dropWhile (\<lambda>c. c = CHR ''0'') (kept value))"

definition fractional_digits :: "string \<Rightarrow> string" where
  "fractional_digits value =
     filter (\<lambda>c. c \<noteq> CHR ''.'') (tl (dropWhile (\<lambda>c. c \<noteq> CHR ''.'') (kept value)))"

definition finish_normalizing :: "string \<Rightarrow> string" where
  "finish_normalizing n1 =
     (let n2 = (case indexOf (CHR ''.'') n1 of
                  None \<Rightarrow> n1
                | Some firstDot \<Rightarrow>
                    js_slice 0 (firstDot + 1) n1 @
                    filter (\<lambda>c. c \<noteq> CHR ''.'') (drop (firstDot + 1) n1));
          n3 = (if take 1 n2 = ''.'' then CHR ''0'' # n2 else n2)
      in if CHR ''.'' \<in> set n3 then limit_parts n3 (split_on (CHR ''.'') n3)
         else if 9 < length n3 then js_slice 0 9 n3
         else n3)"

text \<open>
  Two engines, for closed statements: one whose powers of ten are all rounded to the
  nearest binary64 value, and one that returns for \<open>10^26\<close> the binary64 value next below
  the nearest one, which ECMAScript permits as well.
\<close>

definition nearest_pow10 :: "nat \<Rightarrow> float64" where
  "nearest_pow10 n = round_to_float64 (10 ^ n)"



section \<open>Digits\<close>

lemma is_digit_digit_char: "0 \<le> d \<Longrightarrow> d < 10 \<Longrightarrow> is_digit (digit_char d)"
  by (simp add: is_digit_def digit_char_def)

lemma digit_val_digit_char: "0 \<le> d \<Longrightarrow> d < 10 \<Longrightarrow> digit_val (digit_char d) = d"
  by (simp add: digit_val_def digit_char_def)

lemma digit_char_digit_val: "is_digit c \<Longrightarrow> digit_char (digit_val c) = c"
  by (simp add: is_digit_def digit_char_def digit_val_def)

lemma digit_val_range: "is_digit c \<Longrightarrow> 0 \<le> digit_val c \<and> digit_val c < 10"
  by (simp add: is_digit_def digit_val_def)

lemma digit_val_zero: "digit_val (CHR ''0'') = 0"
  by (simp add: digit_val_def)

lemma digit_char_zero: "digit_char 0 = CHR ''0''"
  by code_simp

lemma is_digit_zero: "is_digit (CHR ''0'')"
  by (simp add: is_digit_def)

lemma is_digit_not_dot: "is_digit c \<Longrightarrow> c \<noteq> CHR ''.''"
  by (auto simp add: is_digit_def)

lemma digit_val_eq_zero: "is_digit c \<Longrightarrow> digit_val c = 0 \<Longrightarrow> c = CHR ''0''"
proof -
  assume "is_digit c" and z: "digit_val c = 0"
  have "digit_char (digit_val c) = c" using \<open>is_digit c\<close> by (rule digit_char_digit_val)
  then have "digit_char 0 = c" unfolding z .
  then show ?thesis unfolding digit_char_zero by (rule sym)
qed

lemma digit_char_eq_zero: "0 \<le> d \<Longrightarrow> d < 10 \<Longrightarrow> digit_char d = CHR ''0'' \<Longrightarrow> d = 0"
proof -
  assume "0 \<le> d" "d < 10" and z: "digit_char d = CHR ''0''"
  have "digit_val (digit_char d) = d"
    using \<open>0 \<le> d\<close> \<open>d < 10\<close> by (rule digit_val_digit_char)
  then show ?thesis unfolding z digit_val_zero by (rule sym)
qed

subsection \<open>Digit strings and their values\<close>

lemma foldl_digits_acc:
  "foldl (\<lambda>acc c. 10 * acc + digit_val c) a s =
     a * 10 ^ length s + foldl (\<lambda>acc c. 10 * acc + digit_val c) 0 s"
proof (induction s arbitrary: a)
  case Nil
  show ?case by simp
next
  case (Cons c s)
  have "foldl (\<lambda>acc c. 10 * acc + digit_val c) a (c # s) =
        (10 * a + digit_val c) * 10 ^ length s + foldl (\<lambda>acc c. 10 * acc + digit_val c) 0 s"
    using Cons.IH [of "10 * a + digit_val c"] by simp
  moreover have "foldl (\<lambda>acc c. 10 * acc + digit_val c) 0 (c # s) =
        digit_val c * 10 ^ length s + foldl (\<lambda>acc c. 10 * acc + digit_val c) 0 s"
    using Cons.IH [of "digit_val c"] by simp
  ultimately show ?case by (simp add: algebra_simps)
qed

lemma digits_value_Nil: "digits_value [] = 0"
  by (simp add: digits_value_def)

lemma digits_value_append:
  "digits_value (xs @ ys) = digits_value xs * 10 ^ length ys + digits_value ys"
  unfolding digits_value_def foldl_append by (rule foldl_digits_acc)

lemma digits_value_Cons:
  "digits_value (c # s) = digit_val c * 10 ^ length s + digits_value s"
proof -
  have "digits_value ([c] @ s) = digits_value [c] * 10 ^ length s + digits_value s"
    by (rule digits_value_append)
  moreover have "digits_value [c] = digit_val c" by (simp add: digits_value_def)
  ultimately show ?thesis by simp
qed

lemma digits_value_snoc: "digits_value (s @ [c]) = 10 * digits_value s + digit_val c"
  by (simp add: digits_value_def)

lemma digits_value_zeros: "digits_value (replicate k (CHR ''0'')) = 0"
  by (induction k) (simp_all add: digits_value_Nil digits_value_Cons digit_val_zero)

lemma digits_value_pad_left: "digits_value (replicate k (CHR ''0'') @ s) = digits_value s"
  by (simp add: digits_value_append digits_value_zeros)

lemma digits_value_pad_right:
  "digits_value (s @ replicate k (CHR ''0'')) = digits_value s * 10 ^ k"
  by (simp add: digits_value_append digits_value_zeros)

lemma digits_value_nonneg: "list_all is_digit s \<Longrightarrow> 0 \<le> digits_value s"
proof (induction s rule: rev_induct)
  case Nil
  show ?case by (simp add: digits_value_Nil)
next
  case (snoc c s)
  then show ?case using digit_val_range [of c] by (simp add: digits_value_snoc)
qed

lemma digits_value_less: "list_all is_digit s \<Longrightarrow> digits_value s < 10 ^ length s"
proof (induction s rule: rev_induct)
  case Nil
  show ?case by (simp add: digits_value_Nil)
next
  case (snoc c s)
  then have "digits_value s + 1 \<le> 10 ^ length s" and "digit_val c < 10"
    using digit_val_range [of c] by simp_all
  then have "10 * digits_value s + digit_val c < 10 * 10 ^ length s" by linarith
  then show ?case by (simp add: digits_value_snoc)
qed

lemma digits_value_lower:
  "list_all is_digit s \<Longrightarrow> s \<noteq> [] \<Longrightarrow> hd s \<noteq> CHR ''0'' \<Longrightarrow> 10 ^ (length s - 1) \<le> digits_value s"
proof (cases s)
  case Nil
  assume "s \<noteq> []"
  with Nil show ?thesis by simp
next
  case (Cons c t)
  assume a: "list_all is_digit s" "hd s \<noteq> CHR ''0''"
  with Cons have "is_digit c" "c \<noteq> CHR ''0''" "list_all is_digit t" by simp_all
  then have "digit_val c \<noteq> 0" "0 \<le> digit_val c" "0 \<le> digits_value t"
    using digit_val_eq_zero [of c] digit_val_range [of c] digits_value_nonneg [of t]
    by blast+
  then have "1 \<le> digit_val c" "0 \<le> digits_value t" by linarith+
  then have "1 * 10 ^ length t \<le> digit_val c * 10 ^ length t"
    by (intro mult_right_mono) simp_all
  with \<open>0 \<le> digits_value t\<close>
  have "10 ^ length t \<le> digit_val c * 10 ^ length t + digits_value t" by linarith
  then show ?thesis
    using Cons by (simp add: digits_value_Cons)
qed

subsection \<open>\<^verbatim>\<open>toString\<close> of a non-negative BigInt\<close>

lemma decimal_digits_small: "n < 10 \<Longrightarrow> decimal_digits n = [digit_char n]"
  by (simp add: decimal_digits.simps)

lemma decimal_digits_large:
  "10 \<le> n \<Longrightarrow> decimal_digits n = decimal_digits (n div 10) @ [digit_char (n mod 10)]"
  by (subst decimal_digits.simps) simp

lemma decimal_digits_zero: "decimal_digits 0 = ''0''"
  by (simp add: decimal_digits_small digit_char_zero)

lemma decimal_digits_nonempty: "decimal_digits n \<noteq> []"
  by (subst decimal_digits.simps) simp

lemma decimal_digits_all_digits: "0 \<le> n \<Longrightarrow> list_all is_digit (decimal_digits n)"
proof (induction n rule: decimal_digits.induct)
  case (1 n)
  show ?case
  proof (cases "n < 10")
    case True
    with "1.prems" show ?thesis by (simp add: decimal_digits_small is_digit_digit_char)
  next
    case False
    with "1.IH" "1.prems" have "list_all is_digit (decimal_digits (n div 10))" by simp
    with False show ?thesis
      by (simp add: decimal_digits_large is_digit_digit_char)
  qed
qed

lemma digits_value_decimal_digits: "0 \<le> n \<Longrightarrow> digits_value (decimal_digits n) = n"
proof (induction n rule: decimal_digits.induct)
  case (1 n)
  show ?case
  proof (cases "n < 10")
    case True
    with "1.prems" show ?thesis
      by (simp add: decimal_digits_small digits_value_def digit_val_digit_char)
  next
    case False
    with "1.IH" "1.prems" have "digits_value (decimal_digits (n div 10)) = n div 10" by simp
    with False show ?thesis
      by (simp add: decimal_digits_large digits_value_snoc digit_val_digit_char)
  qed
qed

lemma hd_decimal_digits: "0 < n \<Longrightarrow> hd (decimal_digits n) \<noteq> CHR ''0''"
proof (induction n rule: decimal_digits.induct)
  case (1 n)
  show ?case
  proof (cases "n < 10")
    case True
    with "1.prems" have "digit_char n \<noteq> CHR ''0''"
      using digit_char_eq_zero [of n] by auto
    with True show ?thesis by (simp add: decimal_digits_small)
  next
    case False
    with "1.IH" "1.prems" have "hd (decimal_digits (n div 10)) \<noteq> CHR ''0''" by simp
    with False show ?thesis
      by (simp add: decimal_digits_large decimal_digits_nonempty)
  qed
qed

lemma decimal_digits_digits_value:
  "list_all is_digit s \<Longrightarrow> s \<noteq> [] \<Longrightarrow> hd s \<noteq> CHR ''0'' \<or> s = ''0'' \<Longrightarrow>
     decimal_digits (digits_value s) = s"
proof (induction s rule: rev_induct)
  case Nil
  then show ?case by simp
next
  case (snoc c t)
  then have c: "is_digit c" and t: "list_all is_digit t" by simp_all
  show ?case
  proof (cases "t = []")
    case True
    with c show ?thesis
      using digit_val_range [of c]
      by (simp add: digits_value_def decimal_digits_small digit_char_digit_val)
  next
    case False
    with snoc.prems have h: "hd t \<noteq> CHR ''0''" by (cases t) auto
    with t False have "1 \<le> digits_value t"
      using digits_value_lower [of t] one_le_power [of "10::int" "length t - 1"] by linarith
    moreover have r: "0 \<le> digit_val c" "digit_val c < 10" using digit_val_range [OF c] by simp_all
    ultimately have big: "10 \<le> digits_value (t @ [c])" by (simp add: digits_value_snoc)
    have "digits_value (t @ [c]) div 10 = digits_value t"
      and "digits_value (t @ [c]) mod 10 = digit_val c"
      using r by (simp_all add: digits_value_snoc)
    with big show ?thesis
      using snoc.IH [OF t False] h c
      by (simp add: decimal_digits_large digit_char_digit_val)
  qed
qed

lemma length_decimal_digits_le:
  "0 \<le> n \<Longrightarrow> 0 < k \<Longrightarrow> length (decimal_digits n) \<le> k \<longleftrightarrow> n < 10 ^ k"
proof
  assume n: "0 \<le> n" and le: "length (decimal_digits n) \<le> k"
  have "n < 10 ^ length (decimal_digits n)"
    using digits_value_less [OF decimal_digits_all_digits [OF n]]
    by (simp add: digits_value_decimal_digits [OF n])
  also have "\<dots> \<le> (10::int) ^ k" using le by (simp add: power_increasing)
  finally show "n < 10 ^ k" .
next
  assume n: "0 \<le> n" and k: "0 < k" and lt: "n < 10 ^ k"
  show "length (decimal_digits n) \<le> k"
  proof (cases "n = 0")
    case True
    with k show ?thesis by (simp add: decimal_digits_zero)
  next
    case False
    with n have pos: "0 < n" by simp
    have "10 ^ (length (decimal_digits n) - 1) \<le> digits_value (decimal_digits n)"
      using digits_value_lower [OF decimal_digits_all_digits [OF n] decimal_digits_nonempty
          hd_decimal_digits [OF pos]] .
    then have "10 ^ (length (decimal_digits n) - 1) \<le> n"
      unfolding digits_value_decimal_digits [OF n] .
    with lt have "(10::int) ^ (length (decimal_digits n) - 1) < 10 ^ k" by linarith
    then have "length (decimal_digits n) - 1 < k"
      by (rule power_less_imp_less_exp [rotated]) simp
    then show ?thesis by simp
  qed
qed

section \<open>\<^verbatim>\<open>big2str\<close> and \<^verbatim>\<open>parse\<close>\<close>

lemma decimal_digits_fixed_width:
  "list_all is_digit s \<Longrightarrow> s \<noteq> [] \<Longrightarrow>
     replicate (length s - length (decimal_digits (digits_value s))) (CHR ''0'') @
       decimal_digits (digits_value s) = s"
proof (induction s)
  case Nil
  then show ?case by simp
next
  case (Cons c t)
  then have c: "is_digit c" and t: "list_all is_digit t" by simp_all
  show ?case
  proof (cases "c = CHR ''0''")
    case False
    then have "decimal_digits (digits_value (c # t)) = c # t"
      using decimal_digits_digits_value [of "c # t"] Cons.prems by simp
    then show ?thesis by simp
  next
    case True
    then have v: "digits_value (c # t) = digits_value t"
      by (simp add: digits_value_Cons digit_val_zero)
    show ?thesis
    proof (cases "t = []")
      case True
      with \<open>c = CHR ''0''\<close> show ?thesis
        by (simp add: digits_value_Cons digits_value_Nil digit_val_zero decimal_digits_zero)
    next
      case False
      have "length (decimal_digits (digits_value t)) \<le> length t"
        using length_decimal_digits_le [of "digits_value t" "length t"]
          digits_value_nonneg [OF t] digits_value_less [OF t] False by simp
      then have "replicate (length (c # t) - length (decimal_digits (digits_value t))) (CHR ''0'')
          = CHR ''0'' # replicate (length t - length (decimal_digits (digits_value t))) (CHR ''0'')"
        by (simp add: Suc_diff_le)
      then show ?thesis
        using Cons.IH [OF t False] True unfolding v by simp
    qed
  qed
qed

lemma takeWhile_not_dot:
  "list_all is_digit w \<Longrightarrow> takeWhile (\<lambda>c. c \<noteq> CHR ''.'') (w @ CHR ''.'' # f) = w"
  by (induction w) (auto simp: is_digit_not_dot)

lemma dropWhile_not_dot:
  "list_all is_digit w \<Longrightarrow> dropWhile (\<lambda>c. c \<noteq> CHR ''.'') (w @ CHR ''.'' # f) = CHR ''.'' # f"
  by (induction w) (auto simp: is_digit_not_dot)

lemma bigint_toString_nonneg: "0 \<le> a \<Longrightarrow> bigint_toString a = decimal_digits a"
  by (simp add: bigint_toString_def)

lemma big2str_nonneg:
  "0 \<le> a \<Longrightarrow>
   big2str a d =
     (if length (decimal_digits a) \<le> d
      then ''0.'' @ replicate (d - length (decimal_digits a)) (CHR ''0'') @ decimal_digits a
      else take (length (decimal_digits a) - d) (decimal_digits a) @ ''.'' @
           drop (length (decimal_digits a) - d) (decimal_digits a))"
  by (auto simp add: big2str_def bigint_toString_nonneg padStart_def js_slice_def Let_def)

lemma big2str_parts:
  "0 \<le> a \<Longrightarrow> big2str a d = whole_digits a d @ CHR ''.'' # fraction_digits a d"
  by (simp add: big2str_nonneg whole_digits_def fraction_digits_def)

lemma length_fraction_digits: "length (fraction_digits a d) = d"
  by (simp add: fraction_digits_def)

lemma fraction_digits_all_digits: "0 \<le> a \<Longrightarrow> list_all is_digit (fraction_digits a d)"
  using decimal_digits_all_digits [of a]
  by (auto simp add: fraction_digits_def list_all_iff is_digit_zero dest: in_set_dropD)

lemma whole_digits_all_digits: "0 \<le> a \<Longrightarrow> list_all is_digit (whole_digits a d)"
  using decimal_digits_all_digits [of a]
  by (auto simp add: whole_digits_def list_all_iff is_digit_zero dest: in_set_takeD)

lemma whole_digits_nonempty: "whole_digits a d \<noteq> []"
  by (simp add: whole_digits_def decimal_digits_nonempty)

lemma digits_value_parts:
  "0 \<le> a \<Longrightarrow> digits_value (whole_digits a d @ fraction_digits a d) = a"
  by (simp add: whole_digits_def fraction_digits_def digits_value_Cons digit_val_zero
      digits_value_pad_left digits_value_decimal_digits)

lemma whole_digits_canonical:
  assumes "0 \<le> a"
  shows "hd (whole_digits a d) \<noteq> CHR ''0'' \<or> whole_digits a d = ''0''"
proof (cases "length (decimal_digits a) \<le> d")
  case True
  then show ?thesis by (simp add: whole_digits_def)
next
  case False
  show ?thesis
  proof (cases "a = 0")
    case True
    then show ?thesis by (simp add: whole_digits_def decimal_digits_zero)
  next
    case nz: False
    with assms have "hd (decimal_digits a) \<noteq> CHR ''0''" by (simp add: hd_decimal_digits)
    with False show ?thesis by (simp add: whole_digits_def)
  qed
qed

lemma length_whole_digits_le:
  assumes "0 \<le> a" "0 < d"
  shows "length (whole_digits a d) \<le> 9 \<longleftrightarrow> a < 10 ^ (9 + d)"
proof (cases "length (decimal_digits a) \<le> d")
  case True
  then have "length (decimal_digits a) \<le> 9 + d" by simp
  then have "a < 10 ^ (9 + d)" using length_decimal_digits_le [of a "9 + d"] assms by simp
  with True show ?thesis by (simp add: whole_digits_def)
next
  case False
  then have "length (whole_digits a d) \<le> 9 \<longleftrightarrow> length (decimal_digits a) \<le> 9 + d"
    by (auto simp add: whole_digits_def)
  then show ?thesis using length_decimal_digits_le [of a "9 + d"] assms by simp
qed

lemma whole_value: "0 \<le> a \<Longrightarrow> digits_value (whole_digits a d) = a div 10 ^ d"
  and fraction_value: "0 \<le> a \<Longrightarrow> digits_value (fraction_digits a d) = a mod 10 ^ d"
proof -
  assume a: "0 \<le> a"
  let ?w = "digits_value (whole_digits a d)" and ?f = "digits_value (fraction_digits a d)"
  have eq: "a = ?w * 10 ^ d + ?f"
    using digits_value_parts [OF a, of d]
    by (simp add: digits_value_append length_fraction_digits)
  have f: "0 \<le> ?f" "?f < 10 ^ d"
    using digits_value_nonneg [OF fraction_digits_all_digits [OF a, of d]]
      digits_value_less [OF fraction_digits_all_digits [OF a, of d]]
    by (simp_all add: length_fraction_digits)
  have "a div 10 ^ d = ?w" using f by (subst eq) simp
  moreover have "a mod 10 ^ d = ?f" using f by (subst eq) simp
  ultimately show "?w = a div 10 ^ d" "?f = a mod 10 ^ d" by simp_all
qed

lemma whole_digits_eq: "0 \<le> a \<Longrightarrow> whole_digits a d = decimal_digits (a div 10 ^ d)"
  using decimal_digits_digits_value [of "whole_digits a d"]
    whole_digits_all_digits [of a d] whole_digits_nonempty [of a d]
    whole_digits_canonical [of a d]
  by (simp add: whole_value)

lemma fraction_digits_eq:
  assumes "0 \<le> a" "0 < d"
  shows "fraction_digits a d =
           replicate (d - length (decimal_digits (a mod 10 ^ d))) (CHR ''0'') @
           decimal_digits (a mod 10 ^ d)"
proof -
  have "fraction_digits a d \<noteq> []" using length_fraction_digits [of a d] assms by auto
  then show ?thesis
    using decimal_digits_fixed_width [OF fraction_digits_all_digits [OF assms(1), of d]]
    by (simp add: fraction_value [OF assms(1)] length_fraction_digits)
qed

lemma is_DecimalString_big2str:
  assumes "0 \<le> a"
  shows "is_DecimalString (big2str a d) \<longleftrightarrow> 1 \<le> d \<and> d \<le> 18 \<and> a < 10 ^ (9 + d)"
proof (cases "d = 0")
  case True
  then show ?thesis
    using assms
    by (simp add: is_DecimalString_def matches_decimal_def big2str_parts Let_def
        takeWhile_not_dot dropWhile_not_dot whole_digits_all_digits length_fraction_digits)
next
  case False
  then have d: "0 < d" by simp
  have "canonical_integer_part (whole_digits a d) \<longleftrightarrow> a < 10 ^ (9 + d)"
    using whole_digits_canonical [OF assms, of d] whole_digits_all_digits [OF assms, of d]
      whole_digits_nonempty [of a d] length_whole_digits_le [OF assms d]
    by (auto simp add: canonical_integer_part_def)
  then show ?thesis
    using assms d
    by (auto simp add: is_DecimalString_def matches_decimal_def big2str_parts Let_def
        takeWhile_not_dot dropWhile_not_dot whole_digits_all_digits length_fraction_digits
        fraction_digits_all_digits)
qed

text \<open>
  Claim C8. For a non-negative amount \<open>a\<close> and \<open>d \<ge> 1\<close> decimals, \<open>big2str\<close> pads the
  base-10 digit string of \<open>a\<close> on the left with zeros to \<open>d\<close> digits (the padded string has
  \<open>max d (length digits)\<close> characters), puts the decimal point at position
  \<open>length padded - d\<close>, and writes \<open>0.\<close> in front when that position is 0. The digits before
  the point then read \<open>a div 10^d\<close> and the \<open>d\<close> digits after it read \<open>a mod 10^d\<close>.
  In particular \<open>big2str 1234 2\<close> is \<open>12.34\<close> and \<open>big2str 5 2\<close> is \<open>0.05\<close>.
\<close>

theorem big2str_pads_and_inserts_point:
  assumes "0 \<le> a" and "1 \<le> d"
  shows
    "(let digits = decimal_digits a;
          padded = replicate (d - length digits) (CHR ''0'') @ digits;
          insertPosition = length padded - d
      in bigint_toString a = digits \<and> digits_value digits = a \<and>
         length padded = max d (length digits) \<and>
         big2str a d =
           (if insertPosition = 0 then ''0.'' @ padded
            else take insertPosition padded @ ''.'' @ drop insertPosition padded)) \<and>
     big2str a d =
       decimal_digits (a div 10 ^ d) @ ''.'' @
       replicate (d - length (decimal_digits (a mod 10 ^ d))) (CHR ''0'') @
       decimal_digits (a mod 10 ^ d) \<and>
     big2str 1234 2 = ''12.34'' \<and> big2str 5 2 = ''0.05''"
proof -
  have d: "0 < d" using assms(2) by simp
  have layout: "big2str a d =
      (if length (replicate (d - length (decimal_digits a)) (CHR ''0'') @ decimal_digits a) - d = 0
       then ''0.'' @ replicate (d - length (decimal_digits a)) (CHR ''0'') @ decimal_digits a
       else take (length (replicate (d - length (decimal_digits a)) (CHR ''0'') @ decimal_digits a) - d)
              (replicate (d - length (decimal_digits a)) (CHR ''0'') @ decimal_digits a) @ ''.'' @
            drop (length (replicate (d - length (decimal_digits a)) (CHR ''0'') @ decimal_digits a) - d)
              (replicate (d - length (decimal_digits a)) (CHR ''0'') @ decimal_digits a))"
    using assms(1)
    by (simp add: big2str_def bigint_toString_nonneg padStart_def js_slice_def Let_def)
  have len: "length (replicate (d - length (decimal_digits a)) (CHR ''0'') @ decimal_digits a) =
      max d (length (decimal_digits a))"
    by simp
  have sem: "big2str a d =
       decimal_digits (a div 10 ^ d) @ ''.'' @
       replicate (d - length (decimal_digits (a mod 10 ^ d))) (CHR ''0'') @
       decimal_digits (a mod 10 ^ d)"
    using big2str_parts [OF assms(1), of d] whole_digits_eq [OF assms(1), of d]
      fraction_digits_eq [OF assms(1) d]
    by simp
  have e1: "big2str 1234 2 = ''12.34''" by code_simp
  have e2: "big2str 5 2 = ''0.05''" by code_simp
  show ?thesis
    unfolding Let_def
    using layout len sem e1 e2 bigint_toString_nonneg [OF assms(1)]
      digits_value_decimal_digits [OF assms(1)]
    by (intro conjI) assumption+
qed

theorem big2str_pads_and_inserts_point_witness:
  "(0::int) \<le> 5 \<and> (1::nat) \<le> 2 \<and>
   big2str 5 2 =
     decimal_digits (5 div 10 ^ 2) @ ''.'' @
     replicate (2 - length (decimal_digits (5 mod 10 ^ 2))) (CHR ''0'') @
     decimal_digits (5 mod 10 ^ 2)"
proof -
  have a: "(0::int) \<le> 5" and d: "(1::nat) \<le> 2" by simp_all
  show ?thesis
    using a d big2str_pads_and_inserts_point [OF a d] by blast
qed

text \<open>
  Claim C3, as amended. For a non-negative amount \<open>a\<close>, parsing \<open>big2str a d\<close> back with
  \<open>d\<close> decimals returns \<open>a\<close> when \<open>1 \<le> d \<le> 18\<close> and \<open>a < 10^(9 + d)\<close>, so that the
  integer part has at most nine digits; for every other \<open>d\<close> and \<open>a\<close> the text is outside
  the DecimalString grammar and \<open>parse\<close> fails with \<open>InvalidFormat\<close>.
\<close>

theorem parse_big2str_roundtrip:
  assumes "0 \<le> a"
  shows "parse (big2str a d) d =
           (if 1 \<le> d \<and> d \<le> 18 \<and> a < 10 ^ (9 + d) then Inr a else Inl InvalidFormat)"
  using assms is_DecimalString_big2str [OF assms, of d]
  by (simp add: parse_def Let_def big2str_parts takeWhile_not_dot dropWhile_not_dot
      whole_digits_all_digits length_fraction_digits digits_value_parts
      del: One_nat_def)

theorem parse_big2str_roundtrip_witness:
  "(0::int) \<le> 1234 \<and> parse (big2str 1234 2) 2 = Inr 1234"
proof -
  have a: "(0::int) \<le> 1234" by simp
  show ?thesis
    using a parse_big2str_roundtrip [OF a, of 2] by simp
qed

text \<open>
  The claim as stated fails with no decimals, where \<open>big2str\<close> ends in a bare decimal
  point, and for an amount whose integer part has more than nine digits.
\<close>

theorem parse_big2str_roundtrip_counterexample:
  "big2str 123 0 = ''123.'' \<and> parse (big2str 123 0) 0 = Inl InvalidFormat \<and>
   big2str (10 ^ 10) 1 = ''1000000000.0'' \<and> parse (big2str (10 ^ 10) 1) 1 = Inl InvalidFormat"
  by code_simp

section \<open>\<^verbatim>\<open>normalizeUnsignedFloat\<close>\<close>

lemma split_on_no_sep: "sep \<notin> set s \<Longrightarrow> split_on sep s = [s]"
  by (induction s) auto

lemma split_on_first:
  "sep \<notin> set w \<Longrightarrow> split_on sep (w @ sep # f) = w # split_on sep f"
  by (induction w) auto

lemma split_on_two:
  "sep \<notin> set w \<Longrightarrow> sep \<notin> set f \<Longrightarrow> split_on sep (w @ sep # f) = [w, f]"
  by (simp add: split_on_first split_on_no_sep)

text \<open>
  A string with a dot splits into at least two pieces, so \<open>decimalPart\<close> is never
  undefined in \<open>limit_parts\<close>.
\<close>

lemma split_on_nonempty: "split_on sep s \<noteq> []"
  by (induction s) (auto split: list.splits)

lemma split_on_two_pieces: "sep \<in> set s \<Longrightarrow> 2 \<le> length (split_on sep s)"
proof (induction s)
  case Nil
  then show ?case by simp
next
  case (Cons c s)
  show ?case
  proof (cases "c = sep")
    case True
    then show ?thesis using split_on_nonempty [of sep s] by (cases "split_on sep s") auto
  next
    case False
    with Cons.prems have "sep \<in> set s" by simp
    then have "2 \<le> length (split_on sep s)" by (rule Cons.IH)
    with False show ?thesis by (cases "split_on sep s") auto
  qed
qed

lemma limit_parts_two:
  "limit_parts n [w, f] =
     (if 18 < length f then w @ ''.'' @ take 18 f
      else if 9 < length w then take 9 w @ ''.'' @ f else n)"
  by (auto simp add: limit_parts_def js_slice_def Let_def)

lemma dropWhile_zero_not_dot:
  "dropWhile (\<lambda>c. c \<noteq> CHR ''.'') (dropWhile (\<lambda>c. c = CHR ''0'') s) =
   dropWhile (\<lambda>c. c \<noteq> CHR ''.'') s"
  by (induction s) auto

lemma dot_in_dropWhile_zero:
  "CHR ''.'' \<in> set (dropWhile (\<lambda>c. c = CHR ''0'') s) \<longleftrightarrow> CHR ''.'' \<in> set s"
  by (induction s) auto

lemma indexOf_dot:
  "CHR ''.'' \<in> set s \<Longrightarrow>
     indexOf (CHR ''.'') s = Some (length (takeWhile (\<lambda>c. c \<noteq> CHR ''.'') s))"
  by (simp add: indexOf_def)

lemma take_first_dot:
  "CHR ''.'' \<in> set s \<Longrightarrow>
     take (Suc (length (takeWhile (\<lambda>c. c \<noteq> CHR ''.'') s))) s =
     takeWhile (\<lambda>c. c \<noteq> CHR ''.'') s @ ''.''"
  by (induction s) auto

lemma drop_first_dot:
  "drop (Suc (length (takeWhile (\<lambda>c. c \<noteq> CHR ''.'') s))) s =
     tl (dropWhile (\<lambda>c. c \<noteq> CHR ''.'') s)"
  by (induction s) auto

lemma normalizeUnsignedFloat_unfold:
  "normalizeUnsignedFloat value =
     (if kept value \<noteq> [] \<and> list_all (\<lambda>c. c = CHR ''0'') (kept value) then ''0''
      else finish_normalizing (dropWhile (\<lambda>c. c = CHR ''0'') (kept value)))"
proof (cases "value = []")
  case True
  then show ?thesis
    by (simp add: normalizeUnsignedFloat_def kept_def finish_normalizing_def indexOf_def)
next
  case False
  then show ?thesis
    unfolding normalizeUnsignedFloat_def kept_def finish_normalizing_def Let_def by simp
qed

lemma finish_normalizing_no_dot:
  assumes "CHR ''.'' \<notin> set n"
  shows "finish_normalizing n = take 9 n"
proof -
  have "take 1 n \<noteq> ''.''" using assms by (cases n) auto
  with assms show ?thesis
    by (simp add: finish_normalizing_def indexOf_def js_slice_def)
qed

lemma add_zero_before_dot:
  assumes "CHR ''.'' \<notin> set w"
  shows "(if take 1 (w @ CHR ''.'' # f) = ''.'' then CHR ''0'' # w @ CHR ''.'' # f
          else w @ CHR ''.'' # f) = (if w = [] then ''0'' else w) @ CHR ''.'' # f"
  using assms by (cases w) auto

lemma finish_normalizing_dot:
  assumes "CHR ''.'' \<in> set n"
  shows "finish_normalizing n =
     (let w = takeWhile (\<lambda>c. c \<noteq> CHR ''.'') n;
          f = filter (\<lambda>c. c \<noteq> CHR ''.'') (tl (dropWhile (\<lambda>c. c \<noteq> CHR ''.'') n));
          W = (if w = [] then ''0'' else w)
      in if 18 < length f then W @ ''.'' @ take 18 f
         else take 9 W @ ''.'' @ f)"
proof -
  define w where "w = takeWhile (\<lambda>c. c \<noteq> CHR ''.'') n"
  define f where "f = filter (\<lambda>c. c \<noteq> CHR ''.'') (tl (dropWhile (\<lambda>c. c \<noteq> CHR ''.'') n))"
  define W where "W = (if w = [] then ''0'' else w)"
  have nw: "CHR ''.'' \<notin> set w" unfolding w_def by (auto dest: set_takeWhileD)
  have nf: "CHR ''.'' \<notin> set f" unfolding f_def by simp
  have nW: "CHR ''.'' \<notin> set W" using nw unfolding W_def by auto
  have n2: "(case indexOf (CHR ''.'') n of
                  None \<Rightarrow> n
                | Some firstDot \<Rightarrow>
                    js_slice 0 (firstDot + 1) n @
                    filter (\<lambda>c. c \<noteq> CHR ''.'') (drop (firstDot + 1) n)) = w @ CHR ''.'' # f"
    unfolding indexOf_dot [OF assms] w_def f_def
    by (simp add: js_slice_def take_first_dot [OF assms] drop_first_dot)
  have n3: "(if take 1 (w @ CHR ''.'' # f) = ''.'' then CHR ''0'' # w @ CHR ''.'' # f
          else w @ CHR ''.'' # f) = W @ CHR ''.'' # f"
    unfolding W_def using nw by (rule add_zero_before_dot)
  have "finish_normalizing n = limit_parts (W @ CHR ''.'' # f) [W, f]"
    unfolding finish_normalizing_def Let_def n2 n3 split_on_two [OF nW nf] by simp
  also have "\<dots> = (if 18 < length f then W @ ''.'' @ take 18 f else take 9 W @ ''.'' @ f)"
    by (simp add: limit_parts_two)
  finally show ?thesis
    unfolding Let_def w_def [symmetric] f_def [symmetric] W_def [symmetric] .
qed

text \<open>What \<open>normalizeUnsignedFloat\<close> returns, by cases on the kept characters.\<close>

lemma normalizeUnsignedFloat_cases:
  "normalizeUnsignedFloat value =
     (let w = integer_digits value; f = fractional_digits value
      in if kept value \<noteq> [] \<and> list_all (\<lambda>c. c = CHR ''0'') (kept value) then ''0''
         else if CHR ''.'' \<notin> set (kept value) then take 9 w
         else if 18 < length f then (if w = [] then ''0'' else w) @ ''.'' @ take 18 f
         else take 9 (if w = [] then ''0'' else w) @ ''.'' @ f)"
proof (cases "CHR ''.'' \<in> set (kept value)")
  case True
  then have "CHR ''.'' \<in> set (dropWhile (\<lambda>c. c = CHR ''0'') (kept value))"
    by (simp add: dot_in_dropWhile_zero)
  moreover from True have "kept value \<noteq> []" by auto
  ultimately show ?thesis
    using True
    by (simp add: normalizeUnsignedFloat_unfold finish_normalizing_dot Let_def
        integer_digits_def fractional_digits_def dropWhile_zero_not_dot)
next
  case False
  then have nd: "CHR ''.'' \<notin> set (dropWhile (\<lambda>c. c = CHR ''0'') (kept value))"
    by (simp add: dot_in_dropWhile_zero)
  then have "\<forall>x\<in>set (dropWhile (\<lambda>c. c = CHR ''0'') (kept value)). x \<noteq> CHR ''.''" by blast
  then have "integer_digits value = dropWhile (\<lambda>c. c = CHR ''0'') (kept value)"
    unfolding integer_digits_def by (simp only: takeWhile_eq_all_conv)
  then show ?thesis
    using False nd
    by (simp add: normalizeUnsignedFloat_unfold finish_normalizing_no_dot Let_def)
qed

lemma in_set_tl: "x \<in> set (tl xs) \<Longrightarrow> x \<in> set xs"
  by (cases xs) auto

lemma hd_takeWhile: "takeWhile P xs \<noteq> [] \<Longrightarrow> hd (takeWhile P xs) = hd xs"
  by (cases xs) (auto split: if_splits)

lemma kept_chars: "c \<in> set (kept value) \<Longrightarrow> is_digit c \<or> c = CHR ''.''"
  by (simp add: kept_def)

lemma integer_digits_all_digits: "list_all is_digit (integer_digits value)"
proof -
  have "c \<in> set (integer_digits value) \<Longrightarrow> is_digit c" for c
  proof -
    assume c: "c \<in> set (integer_digits value)"
    then have "c \<noteq> CHR ''.''" unfolding integer_digits_def by (auto dest: set_takeWhileD)
    moreover from c have "c \<in> set (kept value)"
      unfolding integer_digits_def by (auto dest!: set_takeWhileD set_dropWhileD)
    ultimately show "is_digit c" using kept_chars by blast
  qed
  then show ?thesis by (simp add: list_all_iff)
qed

lemma hd_integer_digits: "integer_digits value \<noteq> [] \<Longrightarrow> hd (integer_digits value) \<noteq> CHR ''0''"
proof -
  let ?n = "dropWhile (\<lambda>c. c = CHR ''0'') (kept value)"
  assume ne: "integer_digits value \<noteq> []"
  have "?n \<noteq> []"
  proof
    assume "?n = []"
    then have "integer_digits value = []" unfolding integer_digits_def by (simp only: takeWhile.simps)
    with ne show False by contradiction
  qed
  then have nz: "\<not> (hd ?n = CHR ''0'')" by (rule hd_dropWhile)
  have eq: "hd (integer_digits value) = hd ?n"
    using ne unfolding integer_digits_def by (rule hd_takeWhile)
  show ?thesis unfolding eq using nz .
qed

lemma fractional_digits_all_digits: "list_all is_digit (fractional_digits value)"
proof -
  have "c \<in> set (fractional_digits value) \<Longrightarrow> is_digit c" for c
  proof -
    assume c: "c \<in> set (fractional_digits value)"
    then have "c \<noteq> CHR ''.''" unfolding fractional_digits_def by auto
    moreover from c have "c \<in> set (tl (dropWhile (\<lambda>c. c \<noteq> CHR ''.'') (kept value)))"
      unfolding fractional_digits_def by simp
    then have "c \<in> set (kept value)"
      by (blast dest: in_set_tl set_dropWhileD)
    ultimately show "is_digit c" using kept_chars by blast
  qed
  then show ?thesis by (simp add: list_all_iff)
qed

lemma digits_no_dot: "list_all is_digit w \<Longrightarrow> CHR ''.'' \<notin> set w"
  by (auto simp add: list_all_iff dest: is_digit_not_dot)

lemma matches_decimal_no_dot:
  "list_all is_digit w \<Longrightarrow> matches_decimal m w = canonical_integer_part w"
proof -
  assume "list_all is_digit w"
  then have "\<forall>x\<in>set w. x \<noteq> CHR ''.''" using digits_no_dot by blast
  then have tw: "takeWhile (\<lambda>c. c \<noteq> CHR ''.'') w = w"
    and dw: "dropWhile (\<lambda>c. c \<noteq> CHR ''.'') w = []"
    by (simp_all only: takeWhile_eq_all_conv dropWhile_eq_Nil_conv)
  show ?thesis unfolding matches_decimal_def tw dw by simp
qed

lemma matches_decimal_dot:
  "list_all is_digit w \<Longrightarrow>
   matches_decimal m (w @ CHR ''.'' # f) =
     (canonical_integer_part w \<and> list_all is_digit f \<and> m \<le> length f \<and> length f \<le> 18)"
  by (simp add: matches_decimal_def takeWhile_not_dot dropWhile_not_dot)

lemma canonical_take9:
  "list_all is_digit w \<Longrightarrow> w \<noteq> [] \<Longrightarrow> hd w \<noteq> CHR ''0'' \<Longrightarrow> canonical_integer_part (take 9 w)"
  by (cases w) (auto simp add: canonical_integer_part_def list_all_iff dest: in_set_takeD)

lemma canonical_zero: "canonical_integer_part ''0''"
  by (simp add: canonical_integer_part_def)

lemma list_all_take: "list_all P xs \<Longrightarrow> list_all P (take n xs)"
  by (auto simp add: list_all_iff dest: in_set_takeD)

lemma filter_only_dots:
  "list_all (\<lambda>c. \<not> is_digit c) value \<Longrightarrow> kept value = filter (\<lambda>c. c = CHR ''.'') value"
  by (induction "value") (auto simp add: kept_def)

lemma dropWhile_zero_dots:
  "\<forall>c\<in>set s. c = CHR ''.'' \<Longrightarrow> dropWhile (\<lambda>c. c = CHR ''0'') s = s"
  by (cases s) auto

lemma takeWhile_dots: "\<forall>c\<in>set s. c = CHR ''.'' \<Longrightarrow> takeWhile (\<lambda>c. c \<noteq> CHR ''.'') s = []"
  by (cases s) auto

lemma filter_not_dot_dots: "\<forall>c\<in>set s. c = CHR ''.'' \<Longrightarrow> filter (\<lambda>c. c \<noteq> CHR ''.'') s = []"
  by (induction s) auto

text \<open>
  Claim C4, as amended. \<open>normalizeUnsignedFloat\<close> is a total function on strings: no
  operation in it can throw. An input without any digit normalizes to the empty string
  when it has no dot either, and to \<open>0.\<close> when it has a dot, since the first dot is kept
  and a zero is put in front of it.
\<close>

theorem normalizeUnsignedFloat_without_digits:
  assumes "list_all (\<lambda>c. \<not> is_digit c) value"
  shows "normalizeUnsignedFloat value = (if CHR ''.'' \<in> set value then ''0.'' else [])"
proof -
  have k: "kept value = filter (\<lambda>c. c = CHR ''.'') value"
    using assms by (rule filter_only_dots)
  have dots: "\<forall>c\<in>set (kept value). c = CHR ''.''" unfolding k by simp
  have mem: "CHR ''.'' \<in> set (kept value) \<longleftrightarrow> CHR ''.'' \<in> set value" unfolding k by auto
  have n1: "dropWhile (\<lambda>c. c = CHR ''0'') (kept value) = kept value"
    using dots by (rule dropWhile_zero_dots)
  have w: "integer_digits value = []"
    unfolding integer_digits_def n1 using dots by (rule takeWhile_dots)
  have "\<forall>c\<in>set (tl (dropWhile (\<lambda>c. c \<noteq> CHR ''.'') (kept value))). c = CHR ''.''"
    using dots by (blast dest: in_set_tl set_dropWhileD)
  then have f: "fractional_digits value = []"
    unfolding fractional_digits_def by (rule filter_not_dot_dots)
  have nz: "\<not> (kept value \<noteq> [] \<and> list_all (\<lambda>c. c = CHR ''0'') (kept value))"
    using dots by (cases "kept value") auto
  show ?thesis
    unfolding normalizeUnsignedFloat_cases Let_def w f using nz mem by simp
qed

theorem normalizeUnsignedFloat_without_digits_witness:
  "list_all (\<lambda>c. \<not> is_digit c) ''-,x'' \<and> normalizeUnsignedFloat ''-,x'' = []"
proof -
  have h: "list_all (\<lambda>c. \<not> is_digit c) ''-,x''" by (simp add: is_digit_def)
  show ?thesis
    using h normalizeUnsignedFloat_without_digits [OF h] by simp
qed

theorem normalizeUnsignedFloat_without_digits_counterexample:
  "list_all (\<lambda>c. \<not> is_digit c) ''...'' \<and> normalizeUnsignedFloat ''...'' = ''0.'' \<and>
   normalizeUnsignedFloat ''...'' \<noteq> []"
  by code_simp

lemma dot_in_kept: "CHR ''.'' \<in> set (kept value) \<longleftrightarrow> CHR ''.'' \<in> set value"
  by (auto simp add: kept_def)

lemma member_nonempty: "x \<in> set xs \<Longrightarrow> xs \<noteq> []"
  by auto

lemma takeWhile_hd_dot: "s \<noteq> [] \<Longrightarrow> hd s = CHR ''.'' \<Longrightarrow> takeWhile (\<lambda>c. c \<noteq> CHR ''.'') s = []"
  by (cases s) auto

text \<open>
  Claim C5, as amended. When the characters kept by the first replacement are only zeros,
  at least one, the result is \<open>0\<close>. When they are zeros and dots with at least one dot,
  the result is not collapsed: it is \<open>0.\<close> followed by the zeros that come after the first
  dot, at most 18 of them.
\<close>

theorem normalizeUnsignedFloat_zeros_and_dots:
  assumes "kept value \<noteq> []"
    and "list_all (\<lambda>c. c = CHR ''0'' \<or> c = CHR ''.'') (kept value)"
  shows "normalizeUnsignedFloat value =
           (if CHR ''.'' \<in> set (kept value)
            then ''0.'' @ replicate (min 18 (length (fractional_digits value))) (CHR ''0'')
            else ''0'')"
proof (cases "CHR ''.'' \<in> set (kept value)")
  case False
  with assms(2) have "list_all (\<lambda>c. c = CHR ''0'') (kept value)"
    by (auto simp add: list_all_iff)
  with assms(1) False show ?thesis
    by (simp add: normalizeUnsignedFloat_cases Let_def)
next
  case True
  let ?n = "dropWhile (\<lambda>c. c = CHR ''0'') (kept value)"
  have nz: "\<not> list_all (\<lambda>c. c = CHR ''0'') (kept value)"
    using True by (auto simp add: list_all_iff)
  have "CHR ''.'' \<in> set ?n" using True by (simp only: dot_in_dropWhile_zero)
  then have ne: "?n \<noteq> []" by (rule member_nonempty)
  then have "\<not> (hd ?n = CHR ''0'')" by (rule hd_dropWhile)
  moreover have "hd ?n \<in> set ?n" using ne by (rule hd_in_set)
  then have "hd ?n \<in> set (kept value)" by (rule set_dropWhileD)
  ultimately have "hd ?n = CHR ''.''"
    using assms(2) by (auto simp add: list_all_iff)
  with ne have w: "integer_digits value = []"
    unfolding integer_digits_def by (rule takeWhile_hd_dot)
  have "\<forall>c\<in>set (fractional_digits value). c = CHR ''0''"
  proof
    fix c assume c: "c \<in> set (fractional_digits value)"
    then have "c \<noteq> CHR ''.''" unfolding fractional_digits_def by simp
    moreover from c have "c \<in> set (tl (dropWhile (\<lambda>c. c \<noteq> CHR ''.'') (kept value)))"
      unfolding fractional_digits_def by simp
    then have "c \<in> set (kept value)" by (blast dest: in_set_tl set_dropWhileD)
    ultimately show "c = CHR ''0''" using assms(2) by (auto simp add: list_all_iff)
  qed
  then have f: "fractional_digits value =
      replicate (length (fractional_digits value)) (CHR ''0'')"
    by (simp only: replicate_length_same)
  have tk: "take 18 (fractional_digits value) =
      replicate (min 18 (length (fractional_digits value))) (CHR ''0'')"
    by (subst f) (simp add: min.commute)
  have "normalizeUnsignedFloat value = ''0.'' @ take 18 (fractional_digits value)"
    using True nz by (simp add: normalizeUnsignedFloat_cases Let_def w)
  then show ?thesis
    unfolding tk using True by simp
qed

theorem normalizeUnsignedFloat_zeros_and_dots_witness:
  "kept ''a00.0b00'' \<noteq> [] \<and>
   list_all (\<lambda>c. c = CHR ''0'' \<or> c = CHR ''.'') (kept ''a00.0b00'') \<and>
   normalizeUnsignedFloat ''a00.0b00'' = ''0.000'' \<and>
   kept ''0x00'' \<noteq> [] \<and>
   list_all (\<lambda>c. c = CHR ''0'' \<or> c = CHR ''.'') (kept ''0x00'') \<and>
   normalizeUnsignedFloat ''0x00'' = ''0''"
proof -
  have a: "kept ''a00.0b00'' \<noteq> []"
    and b: "list_all (\<lambda>c. c = CHR ''0'' \<or> c = CHR ''.'') (kept ''a00.0b00'')"
    and a': "kept ''0x00'' \<noteq> []"
    and b': "list_all (\<lambda>c. c = CHR ''0'' \<or> c = CHR ''.'') (kept ''0x00'')"
    by (simp_all add: kept_def is_digit_def)
  have c: "fractional_digits ''a00.0b00'' = ''000''"
    and d: "kept ''a00.0b00'' = ''00.000''" and d': "kept ''0x00'' = ''000''"
    by (simp_all add: fractional_digits_def kept_def is_digit_def)
  show ?thesis
    using a b a' b' normalizeUnsignedFloat_zeros_and_dots [OF a b]
      normalizeUnsignedFloat_zeros_and_dots [OF a' b']
    by (simp add: c d d')
qed

theorem normalizeUnsignedFloat_zeros_and_dots_counterexample:
  "kept ''0.0'' = ''0.0'' \<and> normalizeUnsignedFloat ''0.0'' = ''0.0'' \<and>
   kept ''00.00'' = ''00.00'' \<and> normalizeUnsignedFloat ''00.00'' = ''0.00''"
  by code_simp

lemma canonical_whole:
  "canonical_integer_part
     (take 9 (if integer_digits value = [] then ''0'' else integer_digits value))"
  using canonical_take9 [OF integer_digits_all_digits, of "value"] hd_integer_digits [of "value"]
  by (simp add: canonical_zero)

lemma whole_all_digits:
  "list_all is_digit (take 9 (if integer_digits value = [] then ''0'' else integer_digits value))"
  using integer_digits_all_digits [of "value"]
  by (auto simp add: is_digit_zero intro: list_all_take)

lemma last_after_dot:
  "list_all is_digit f \<Longrightarrow> last (w @ CHR ''.'' # f) \<noteq> CHR ''.'' \<longleftrightarrow> f \<noteq> []"
proof (cases "f = []")
  case True
  then show ?thesis by simp
next
  case False
  assume "list_all is_digit f"
  with False have "is_digit (last f)" by (simp add: list_all_iff)
  then have "last f \<noteq> CHR ''.''" by (rule is_digit_not_dot)
  with False show ?thesis by simp
qed

text \<open>
  The three shapes of an output, for an input with at most nine integer digits or at
  most 18 fractional digits.
\<close>

lemma normalizeUnsignedFloat_shapes:
  assumes "length (integer_digits value) \<le> 9 \<or> length (fractional_digits value) \<le> 18"
  obtains (zero) "normalizeUnsignedFloat value = ''0''"
    | (nodot) "normalizeUnsignedFloat value = take 9 (integer_digits value)"
    | (dot) "normalizeUnsignedFloat value =
        take 9 (if integer_digits value = [] then ''0'' else integer_digits value) @
        CHR ''.'' # take 18 (fractional_digits value)"
proof -
  let ?w = "integer_digits value" and ?f = "fractional_digits value"
  let ?W = "take 9 (if ?w = [] then ''0'' else ?w)"
  show thesis
  proof (cases "kept value \<noteq> [] \<and> list_all (\<lambda>c. c = CHR ''0'') (kept value)")
    case True
    then have "normalizeUnsignedFloat value = ''0''"
      by (simp add: normalizeUnsignedFloat_cases Let_def)
    then show thesis by (rule zero)
  next
    case nz: False
    show thesis
    proof (cases "CHR ''.'' \<in> set (kept value)")
      case False
      have "normalizeUnsignedFloat value = take 9 ?w"
        by (simp add: normalizeUnsignedFloat_cases Let_def nz False)
      then show thesis by (rule nodot)
    next
      case True
      show thesis
      proof (cases "18 < length ?f")
        case long: True
        with assms have "length ?w \<le> 9" by simp
        then have "(if ?w = [] then ''0'' else ?w) = ?W" by simp
        moreover have "normalizeUnsignedFloat value =
            (if ?w = [] then ''0'' else ?w) @ CHR ''.'' # take 18 ?f"
          by (simp add: normalizeUnsignedFloat_cases Let_def nz True long)
        ultimately have "normalizeUnsignedFloat value = ?W @ CHR ''.'' # take 18 ?f"
          by (simp only:)
        then show thesis by (rule dot)
      next
        case short: False
        then have "take 18 ?f = ?f" by simp
        moreover have "normalizeUnsignedFloat value = ?W @ CHR ''.'' # ?f"
          by (simp add: normalizeUnsignedFloat_cases Let_def nz True short)
        ultimately have "normalizeUnsignedFloat value = ?W @ CHR ''.'' # take 18 ?f"
          by (simp only:)
        then show thesis by (rule dot)
      qed
    qed
  qed
qed

text \<open>
  Claim C6, as amended. The code has no \<open>strictFinal\<close> step, so an output may end in the
  decimal point. On an input with at most 9 digits before its first dot (leading zeros
  apart) or at most 18 digits after it, every non-empty output matches
  \<^verbatim>\<open>^(0|[1-9][0-9]{0,8})(\.[0-9]{0,18})?$\<close>, and it matches the DecimalString grammar
  itself unless it ends in the decimal point.
\<close>

theorem normalizeUnsignedFloat_matches_grammar:
  assumes "length (integer_digits value) \<le> 9 \<or> length (fractional_digits value) \<le> 18"
  shows "normalizeUnsignedFloat value = [] \<or>
         (matches_decimal 0 (normalizeUnsignedFloat value) \<and>
          (last (normalizeUnsignedFloat value) \<noteq> CHR ''.'' \<longrightarrow>
             is_DecimalString (normalizeUnsignedFloat value)))"
proof -
  let ?w = "integer_digits value" and ?f = "fractional_digits value"
  let ?W = "take 9 (if ?w = [] then ''0'' else ?w)"
  from assms show ?thesis
  proof (cases rule: normalizeUnsignedFloat_shapes)
    case zero
    then show ?thesis
      by (simp add: is_DecimalString_def matches_decimal_no_dot is_digit_zero canonical_zero)
  next
    case nodot
    show ?thesis
    proof (cases "?w = []")
      case True
      with nodot show ?thesis by simp
    next
      case False
      have "list_all is_digit (take 9 ?w)"
        using integer_digits_all_digits by (rule list_all_take)
      moreover have "canonical_integer_part (take 9 ?w)"
        using integer_digits_all_digits False hd_integer_digits [OF False]
        by (rule canonical_take9)
      ultimately show ?thesis
        using nodot by (simp add: is_DecimalString_def matches_decimal_no_dot)
    qed
  next
    case dot
    have f: "list_all is_digit (take 18 ?f)"
      using fractional_digits_all_digits by (rule list_all_take)
    have "matches_decimal m (?W @ CHR ''.'' # take 18 ?f) \<longleftrightarrow> m \<le> length (take 18 ?f)" for m
      using f canonical_whole [of "value"]
      by (simp add: matches_decimal_dot [OF whole_all_digits])
    moreover have "last (?W @ CHR ''.'' # take 18 ?f) \<noteq> CHR ''.'' \<longleftrightarrow> take 18 ?f \<noteq> []"
      using f by (rule last_after_dot)
    ultimately show ?thesis
      unfolding dot is_DecimalString_def
      by (cases "take 18 ?f") simp_all
  qed
qed

theorem normalizeUnsignedFloat_matches_grammar_witness:
  "(length (integer_digits ''1234567890.5'') \<le> 9 \<or>
    length (fractional_digits ''1234567890.5'') \<le> 18) \<and>
   normalizeUnsignedFloat ''1234567890.5'' = ''123456789.5'' \<and>
   is_DecimalString ''123456789.5''"
proof -
  have h: "length (integer_digits ''1234567890.5'') \<le> 9 \<or>
      length (fractional_digits ''1234567890.5'') \<le> 18"
    by code_simp
  have n: "normalizeUnsignedFloat ''1234567890.5'' = ''123456789.5''" by code_simp
  show ?thesis
    using h n normalizeUnsignedFloat_matches_grammar [OF h] by simp
qed

theorem normalizeUnsignedFloat_matches_grammar_counterexample:
  "normalizeUnsignedFloat ''1.'' = ''1.'' \<and> \<not> is_DecimalString ''1.''"
  by code_simp

text \<open>
  Claim C10. \<open>normalizeUnsignedFloat\<close> is not idempotent: when the input has more than
  nine integer digits and more than 18 fractional digits, the second assignment of the
  dot branch restores the whole integer part, and normalizing the output again cuts it
  to nine digits.
\<close>

theorem normalizeUnsignedFloat_not_idempotent:
  "normalizeUnsignedFloat ''1234567890.1234567890123456789'' = ''1234567890.123456789012345678'' \<and>
   normalizeUnsignedFloat (normalizeUnsignedFloat ''1234567890.1234567890123456789'') =
     ''123456789.123456789012345678''"
  by code_simp

text \<open>
  Outside the inputs with more than nine integer digits and more than 18 fractional
  digits, normalizing twice is the same as normalizing once.
\<close>

lemma kept_id: "\<forall>c\<in>set s. is_digit c \<or> c = CHR ''.'' \<Longrightarrow> kept s = s"
  by (simp add: kept_def)

lemma dropWhile_zero_id: "s = [] \<or> hd s \<noteq> CHR ''0'' \<Longrightarrow> dropWhile (\<lambda>c. c = CHR ''0'') s = s"
  by (cases s) auto

lemma normalizeUnsignedFloat_of_integer:
  assumes "list_all is_digit w" and "w = [] \<or> hd w \<noteq> CHR ''0''" and "length w \<le> 9"
  shows "normalizeUnsignedFloat w = w"
proof -
  have k: "kept w = w" using assms(1) by (intro kept_id) (simp add: list_all_iff)
  have nd: "CHR ''.'' \<notin> set w" using assms(1) by (rule digits_no_dot)
  have dz: "dropWhile (\<lambda>c. c = CHR ''0'') w = w" using assms(2) by (rule dropWhile_zero_id)
  have "\<forall>x\<in>set w. x \<noteq> CHR ''.''" using nd by blast
  then have tw: "takeWhile (\<lambda>c. c \<noteq> CHR ''.'') w = w" by (simp only: takeWhile_eq_all_conv)
  have i: "integer_digits w = w" unfolding integer_digits_def k dz tw ..
  have nz: "\<not> (w \<noteq> [] \<and> list_all (\<lambda>c. c = CHR ''0'') w)"
    using assms(2) by (cases w) auto
  show ?thesis
    unfolding normalizeUnsignedFloat_cases Let_def k i
    by (simp add: nz nd assms(3))
qed

lemma normalizeUnsignedFloat_of_decimal:
  assumes "canonical_integer_part W" and "list_all is_digit F" and "length F \<le> 18"
  shows "normalizeUnsignedFloat (W @ CHR ''.'' # F) = W @ CHR ''.'' # F"
proof -
  let ?r = "W @ CHR ''.'' # F"
  have W: "list_all is_digit W" "W \<noteq> []" "length W \<le> 9"
    using assms(1) by (auto simp add: canonical_integer_part_def is_digit_zero)
  have k: "kept ?r = ?r"
    using W(1) assms(2) by (intro kept_id) (auto simp add: list_all_iff)
  have dot: "CHR ''.'' \<in> set ?r" by simp
  have nz: "\<not> (?r \<noteq> [] \<and> list_all (\<lambda>c. c = CHR ''0'') ?r)" by simp
  have f: "fractional_digits ?r = F"
    unfolding fractional_digits_def k
    using digits_no_dot [OF assms(2)]
    by (auto simp add: dropWhile_not_dot [OF W(1)] filter_id_conv)
  have "(if integer_digits ?r = [] then ''0'' else integer_digits ?r) = W"
  proof (cases "W = ''0''")
    case True
    have "integer_digits ?r = []"
      unfolding integer_digits_def k by (simp add: True)
    then show ?thesis by (simp add: True)
  next
    case False
    with assms(1) have "hd W \<noteq> CHR ''0''" by (simp add: canonical_integer_part_def)
    with W(2) have "dropWhile (\<lambda>c. c = CHR ''0'') ?r = ?r" by (cases W) auto
    then have "integer_digits ?r = W"
      unfolding integer_digits_def k by (simp add: takeWhile_not_dot [OF W(1)])
    with W(2) show ?thesis by simp
  qed
  then show ?thesis
    unfolding normalizeUnsignedFloat_cases Let_def k f
    by (simp add: assms(3) W(3))
qed

lemma normalizeUnsignedFloat_idempotent_within_limits:
  assumes "length (integer_digits value) \<le> 9 \<or> length (fractional_digits value) \<le> 18"
  shows "normalizeUnsignedFloat (normalizeUnsignedFloat value) = normalizeUnsignedFloat value"
proof -
  let ?w = "integer_digits value" and ?f = "fractional_digits value"
  let ?W = "take 9 (if ?w = [] then ''0'' else ?w)"
  from assms show ?thesis
  proof (cases rule: normalizeUnsignedFloat_shapes)
    case zero
    have "normalizeUnsignedFloat ''0'' = ''0''" by code_simp
    then show ?thesis unfolding zero .
  next
    case nodot
    have "list_all is_digit (take 9 ?w)"
      using integer_digits_all_digits by (rule list_all_take)
    moreover have "take 9 ?w = [] \<or> hd (take 9 ?w) \<noteq> CHR ''0''"
      using hd_integer_digits [of "value"] by (cases ?w) auto
    moreover have "length (take 9 ?w) \<le> 9" by simp
    ultimately have "normalizeUnsignedFloat (take 9 ?w) = take 9 ?w"
      by (rule normalizeUnsignedFloat_of_integer)
    then show ?thesis unfolding nodot .
  next
    case dot
    have "list_all is_digit (take 18 ?f)"
      using fractional_digits_all_digits by (rule list_all_take)
    moreover have "length (take 18 ?f) \<le> 18" by simp
    ultimately have "normalizeUnsignedFloat (?W @ CHR ''.'' # take 18 ?f) =
        ?W @ CHR ''.'' # take 18 ?f"
      using canonical_whole [of "value"] by (intro normalizeUnsignedFloat_of_decimal)
    then show ?thesis unfolding dot .
  qed
qed

section \<open>Numbers\<close>




text \<open>Up to \<open>10^22\<close> the power is exact, so \<^verbatim>\<open>BigInt(10 ** k)\<close> is \<open>10^k\<close>.\<close>

lemma math_pow10_small: "k \<le> 22 \<Longrightarrow> math_pow10 approx k = Finite (10 ^ k)"
  by (simp add: math_pow10_def)


lemma math_pow10_exact: "k \<le> 22 \<Longrightarrow> number_to_bigint (math_pow10 approx k) = Inr (10 ^ k)"
proof -
  assume "k \<le> 22"
  then have "math_pow10 approx k = Finite (of_int (10 ^ k))" by (simp add: math_pow10_small)
  moreover have "number_to_bigint (Finite (of_int (10 ^ k))) = Inr (10 ^ k)"
    by (simp only: number_to_bigint.simps floor_of_int refl if_True)
  ultimately show ?thesis by (simp only:)
qed


section \<open>\<^verbatim>\<open>bigxnum2big\<close>\<close>

lemma digit_not_whitespace: "is_digit c \<Longrightarrow> \<not> is_whitespace c"
  by (auto simp add: is_digit_def is_whitespace_def)

lemma dot_not_whitespace: "\<not> is_whitespace (CHR ''.'')"
  by (simp add: is_whitespace_def)

lemma js_trim_id: "\<forall>c\<in>set s. \<not> is_whitespace c \<Longrightarrow> js_trim s = s"
proof -
  assume h: "\<forall>c\<in>set s. \<not> is_whitespace c"
  have d: "dropWhile is_whitespace t = t" if "\<forall>c\<in>set t. \<not> is_whitespace c" for t
    using that by (cases t) auto
  have "dropWhile is_whitespace s = s" using h by (rule d)
  moreover have "dropWhile is_whitespace (rev s) = rev s" using h by (intro d) simp
  ultimately show ?thesis by (simp add: js_trim_def)
qed

lemma string_to_bigint_digits: "list_all is_digit s \<Longrightarrow> string_to_bigint s = Inr (digits_value s)"
proof -
  assume h: "list_all is_digit s"
  then have "\<forall>c\<in>set s. \<not> is_whitespace c"
    by (auto simp add: list_all_iff dest: digit_not_whitespace)
  then have "js_trim s = s" by (rule js_trim_id)
  with h show ?thesis by (simp add: string_to_bigint_def digits_value_Nil)
qed

lemma trim_dot_zeros_no_dot: "CHR ''.'' \<notin> set s \<Longrightarrow> trim_dot_zeros s = s"
  by (induction s) auto

lemma trim_dot_zeros_decimal:
  "list_all is_digit ip \<Longrightarrow> list_all is_digit fp \<Longrightarrow>
   trim_dot_zeros (ip @ CHR ''.'' # fp) =
     (if list_all (\<lambda>x. x = CHR ''0'') fp then ip else ip @ CHR ''.'' # fp)"
proof (induction ip)
  case Nil
  then show ?case by (simp add: trim_dot_zeros_no_dot digits_no_dot)
next
  case (Cons c ip)
  then have "c \<noteq> CHR ''.''" by (simp add: is_digit_not_dot)
  with Cons show ?case by simp
qed

lemma all_zeros_value:
  "list_all (\<lambda>x. x = CHR ''0'') fp \<Longrightarrow> digits_value (ip @ fp) = digits_value ip * 10 ^ length fp"
proof -
  assume "list_all (\<lambda>x. x = CHR ''0'') fp"
  then have "\<forall>x\<in>set fp. x = CHR ''0''" by (simp add: list_all_iff)
  then have "replicate (length fp) (CHR ''0'') = fp" by (simp only: replicate_length_same)
  then have "digits_value (ip @ fp) = digits_value (ip @ replicate (length fp) (CHR ''0''))"
    by simp
  then show ?thesis by (simp only: digits_value_pad_right)
qed

lemma bigint_divide_pos:
  "0 \<le> f \<Longrightarrow> 0 < p \<Longrightarrow>
   bigint_divide (f * a) p = Inr (sgn a * (\<bar>a\<bar> * f div p))"
proof -
  assume f: "0 \<le> f" and p: "0 < p"
  have "bigint_divide (f * a) p = Inr (sgn (f * a) * (\<bar>f * a\<bar> div p))"
    using p by (simp add: bigint_divide_def)
  also have "\<bar>f * a\<bar> = \<bar>a\<bar> * f" using f by (simp add: abs_mult mult.commute)
  also have "sgn (f * a) * (\<bar>a\<bar> * f div p) = sgn a * (\<bar>a\<bar> * f div p)"
  proof (cases "f = 0")
    case True
    then show ?thesis by simp
  next
    case False
    with f have "sgn f = 1" by simp
    then show ?thesis by (simp add: sgn_mult)
  qed
  finally show ?thesis .
qed

lemma bigxnum2big_decimal:
  assumes ip: "list_all is_digit ip" and fp: "list_all is_digit fp" and k: "length fp \<le> 22"
  shows "bigxnum2big approx amount (ip @ CHR ''.'' # fp) =
           Inr (sgn amount * (\<bar>amount\<bar> * digits_value (ip @ fp) div 10 ^ length fp))"
proof -
  let ?s = "ip @ CHR ''.'' # fp"
  have "\<forall>c\<in>set ?s. \<not> is_whitespace c"
    using ip fp by (auto simp add: list_all_iff dot_not_whitespace dest: digit_not_whitespace)
  then have trim: "js_trim ?s = ?s" by (rule js_trim_id)
  have F: "0 \<le> digits_value (ip @ fp)" using ip fp by (intro digits_value_nonneg) simp
  show ?thesis
  proof (cases "list_all (\<lambda>x. x = CHR ''0'') fp")
    case True
    have st: "trim_dot_zeros ?s = ip" using True by (simp add: trim_dot_zeros_decimal [OF ip fp])
    have nd: "indexOf (CHR ''.'') ip = None" using digits_no_dot [OF ip] by (simp add: indexOf_def)
    have v: "digits_value (ip @ fp) = digits_value ip * 10 ^ length fp"
      using True by (rule all_zeros_value)
    have "\<bar>amount\<bar> * (digits_value ip * 10 ^ length fp) =
        (\<bar>amount\<bar> * digits_value ip) * 10 ^ length fp"
      by (simp only: mult.assoc)
    then have "\<bar>amount\<bar> * (digits_value ip * 10 ^ length fp) div 10 ^ length fp =
        \<bar>amount\<bar> * digits_value ip"
      by simp
    moreover have "sgn amount * (\<bar>amount\<bar> * digits_value ip) = digits_value ip * amount"
    proof -
      have "sgn amount * (\<bar>amount\<bar> * digits_value ip) =
          (sgn amount * \<bar>amount\<bar>) * digits_value ip"
        by (simp only: mult.assoc)
      also have "\<dots> = amount * digits_value ip" by (simp only: mult_sgn_abs)
      also have "\<dots> = digits_value ip * amount" by (rule mult.commute)
      finally show ?thesis .
    qed
    ultimately have "sgn amount * (\<bar>amount\<bar> * digits_value (ip @ fp) div 10 ^ length fp) =
        digits_value ip * amount"
      unfolding v by (simp only:)
    then show ?thesis
      unfolding bigxnum2big_def Let_def trim st nd
      by (simp add: string_to_bigint_digits [OF ip])
  next
    case False
    have st: "trim_dot_zeros ?s = ?s" using False by (simp add: trim_dot_zeros_decimal [OF ip fp])
    have ix: "indexOf (CHR ''.'') ?s = Some (length ip)"
      using ip by (simp add: indexOf_def takeWhile_not_dot)
    have rm: "remove1 (CHR ''.'') ?s = ip @ fp"
      using digits_no_dot [OF ip] by (simp add: remove1_append)
    have all: "list_all is_digit (ip @ fp)" using ip fp by simp
    have pw: "number_to_bigint (math_pow10 approx (length fp)) = Inr (10 ^ length fp)"
      using k by (rule math_pow10_exact)
    have dv: "bigint_divide (digits_value (ip @ fp) * amount) (10 ^ length fp) =
        Inr (sgn amount * (\<bar>amount\<bar> * digits_value (ip @ fp) div 10 ^ length fp))"
      using F by (rule bigint_divide_pos) simp
    show ?thesis
      unfolding bigxnum2big_def Let_def trim st ix
      by (simp add: rm string_to_bigint_digits [OF all] pw dv)
  qed
qed

lemma bigxnum2big_integer:
  assumes ip: "list_all is_digit ip"
  shows "bigxnum2big approx amount ip = Inr (amount * digits_value ip)"
proof -
  have "\<forall>c\<in>set ip. \<not> is_whitespace c"
    using ip by (auto simp add: list_all_iff dest: digit_not_whitespace)
  then have trim: "js_trim ip = ip" by (rule js_trim_id)
  have st: "trim_dot_zeros ip = ip" using digits_no_dot [OF ip] by (rule trim_dot_zeros_no_dot)
  have nd: "indexOf (CHR ''.'') ip = None" using digits_no_dot [OF ip] by (simp add: indexOf_def)
  show ?thesis
    unfolding bigxnum2big_def Let_def trim st nd
    by (simp add: string_to_bigint_digits [OF ip] mult.commute)
qed

text \<open>
  Claim C7. For a factor written as digits, a decimal point and \<open>k \<le> 18\<close> fractional
  digits, \<open>bigxnum2big\<close> returns the product of the amount and the factor's digits \<open>F\<close>,
  divided by \<open>10^k\<close> with truncation toward zero: \<open>amount * F div 10^k\<close>, the floor,
  for a non-negative amount. A factor without decimal point (\<open>k = 0\<close>) multiplies
  exactly. In particular \<open>bigxnum2big 100 0.5\<close> is 50 and
  \<open>bigxnum2big 3 0.333333333333333333\<close> is 0.
\<close>

theorem bigxnum2big_truncating_product:
  assumes "list_all is_digit ip" and "list_all is_digit fp" and "length fp \<le> 18"
  shows "bigxnum2big approx amount (ip @ ''.'' @ fp) =
           Inr (sgn amount * (\<bar>amount\<bar> * digits_value (ip @ fp) div 10 ^ length fp)) \<and>
         (0 \<le> amount \<longrightarrow>
            bigxnum2big approx amount (ip @ ''.'' @ fp) =
              Inr (amount * digits_value (ip @ fp) div 10 ^ length fp)) \<and>
         bigxnum2big approx amount ip = Inr (amount * digits_value ip) \<and>
         bigxnum2big approx 100 ''0.5'' = Inr 50 \<and>
         bigxnum2big approx 3 ''0.333333333333333333'' = Inr 0"
proof -
  have k: "length fp \<le> 22" using assms(3) by simp
  have g: "bigxnum2big approx amount (ip @ ''.'' @ fp) =
      Inr (sgn amount * (\<bar>amount\<bar> * digits_value (ip @ fp) div 10 ^ length fp))"
    using bigxnum2big_decimal [OF assms(1) assms(2) k] by simp
  have n: "0 \<le> amount \<Longrightarrow> bigxnum2big approx amount (ip @ ''.'' @ fp) =
      Inr (amount * digits_value (ip @ fp) div 10 ^ length fp)"
    unfolding g by (cases "amount = 0") simp_all
  have d1: "list_all is_digit ''0''" "list_all is_digit ''5''"
    and d2: "list_all is_digit ''333333333333333333''"
    by (simp_all add: is_digit_def)
  have v1: "digits_value ''05'' = 5"
    and v2: "digits_value ''0333333333333333333'' = 333333333333333333"
    by (simp_all add: digits_value_def digit_val_def)
  have e1: "bigxnum2big approx 100 ''0.5'' = Inr 50"
    using bigxnum2big_decimal [OF d1, of approx 100] by (simp add: v1)
  have e2: "bigxnum2big approx 3 ''0.333333333333333333'' = Inr 0"
    using bigxnum2big_decimal [OF d1(1) d2, of approx 3] by (simp add: v2)
  show ?thesis
    using g n bigxnum2big_integer [OF assms(1)] e1 e2 by blast
qed

theorem bigxnum2big_truncating_product_witness:
  "list_all is_digit ''12'' \<and> list_all is_digit ''345'' \<and> length ''345'' \<le> 18 \<and>
   (0::int) \<le> 7 \<and> bigxnum2big nearest_pow10 7 ''12.345'' = Inr 86 \<and>
   bigxnum2big nearest_pow10 (- 7) ''12.345'' = Inr (- 86)"
proof -
  have a: "list_all is_digit ''12''" and b: "list_all is_digit ''345''"
    by (simp_all add: is_digit_def)
  have c: "length ''345'' \<le> 18" by simp
  have v: "digits_value ''12345'' = 12345" by (simp add: digits_value_def digit_val_def)
  show ?thesis
    using a b c bigxnum2big_truncating_product [OF a b c, of nearest_pow10 7]
      bigxnum2big_truncating_product [OF a b c, of nearest_pow10 "- 7"]
    by (simp add: v)
qed

section \<open>\<^verbatim>\<open>big2num\<close>\<close>










section \<open>\<^verbatim>\<open>bigxnum2num\<close>\<close>

text \<open>
  The first loop cuts the string from the right: the last 15 characters make the last
  chunk, and the chunks of what is left come before it, the most significant first.
\<close>

lemma make_chunks_acc: "make_chunks str i chunks = make_chunks str i [] @ chunks"
proof (induction i arbitrary: chunks rule: less_induct)
  case (less i)
  show ?case
  proof (cases "0 < i")
    case False
    then show ?thesis by (simp add: make_chunks.simps)
  next
    case True
    let ?c = "js_Number (js_slice (i - 15) i str)"
    have lt: "i - 15 < i" using True by simp
    have "make_chunks str i chunks = make_chunks str (i - 15) (?c # chunks)"
      using True by (subst make_chunks.simps) simp
    also have "\<dots> = make_chunks str (i - 15) [] @ ?c # chunks"
      using lt by (rule less.IH)
    also have "\<dots> = (make_chunks str (i - 15) [] @ [?c]) @ chunks" by simp
    also have "make_chunks str (i - 15) [] @ [?c] = make_chunks str (i - 15) [?c]"
      using less.IH [OF lt, of "[?c]"] by (rule sym)
    also have "make_chunks str (i - 15) [?c] = make_chunks str i []"
      using True by (subst (2) make_chunks.simps) simp
    finally show ?thesis .
  qed
qed

lemma make_chunks_step:
  "0 < i \<Longrightarrow>
   make_chunks str i [] = make_chunks str (i - 15) [] @ [js_Number (js_slice (i - 15) i str)]"
proof -
  assume "0 < i"
  then have "make_chunks str i [] =
      make_chunks str (i - 15) [js_Number (js_slice (i - 15) i str)]"
    by (subst make_chunks.simps) simp
  then show ?thesis by (simp only: make_chunks_acc [of str "i - 15" "[_]"])
qed

lemma chunk_count_step: "0 < i \<Longrightarrow> (i - 15 + 14) div 15 + 1 = (i + 14) div (15::nat)"
proof (cases "15 \<le> i")
  case True
  then obtain j where j: "i = 15 + j" by (auto simp add: le_iff_add)
  show ?thesis unfolding j by simp
next
  case False
  assume "0 < i"
  with False have "15 * 1 \<le> i + 14" and "i + 14 < 15 * Suc 1" by simp_all
  then have "(i + 14) div 15 = 1" by (rule div_nat_eqI)
  moreover from False have "i - 15 = 0" by simp
  ultimately show ?thesis by simp
qed

lemma length_make_chunks: "length (make_chunks str i chunks) = (i + 14) div 15 + length chunks"
proof (induction str i chunks rule: make_chunks.induct)
  case (1 str i chunks)
  show ?case
  proof (cases "0 < i")
    case False
    then show ?thesis by (simp add: make_chunks.simps)
  next
    case True
    have "length (make_chunks str i chunks) =
        length (make_chunks str (i - 15) (js_Number (js_slice (i - 15) i str) # chunks))"
      using True by (subst make_chunks.simps) simp
    also have "\<dots> = (i - 15 + 14) div 15 + Suc (length chunks)"
      using "1.IH" [OF True] by simp
    also have "\<dots> = ((i - 15 + 14) div 15 + 1) + length chunks" by simp
    also have "(i - 15 + 14) div 15 + 1 = (i + 14) div 15"
      using True by (rule chunk_count_step)
    finally show ?thesis .
  qed
qed

lemma num_chunks_eq: "num_chunks amount = (length (bigint_toString amount) + 14) div 15"
  by (simp add: num_chunks_def length_make_chunks)

text \<open>
  The second loop gives the chunk at index \<open>j\<close> the weight \<open>10^(15 * j)\<close>, counted from
  the most significant chunk.
\<close>

lemma sum_chunks_weights:
  "sum_chunks approx cs floatNum i result =
     foldl f64_add result
       (map (\<lambda>j. f64_mul (f64_mul (cs ! j) floatNum) (math_pow10 approx (15 * (i + j))))
          [0..<length cs])"
proof (induction cs arbitrary: i result)
  case Nil
  show ?case by simp
next
  case (Cons c cs)
  have "map (\<lambda>j. f64_mul (f64_mul ((c # cs) ! j) floatNum) (math_pow10 approx (15 * (i + j))))
          [0..<length (c # cs)] =
        f64_mul (f64_mul c floatNum) (math_pow10 approx (15 * i)) #
        map (\<lambda>j. f64_mul (f64_mul (cs ! j) floatNum) (math_pow10 approx (15 * (i + 1 + j))))
          [0..<length cs]"
    by (simp add: upt_conv_Cons map_Suc_upt [symmetric] add.left_commute del: upt_Suc)
  then show ?case
    using Cons.IH [of "i + 1"] by simp
qed

text \<open>What the code computes for a non-zero amount and factor, in one formula.\<close>

lemma bigxnum2num_weights:
  assumes "amount \<noteq> 0" and "\<not> f64_is_zero floatNum"
  shows "bigxnum2num approx amount floatNum =
           (let chunks = make_chunks (bigint_toString amount) (length (bigint_toString amount)) []
            in foldl f64_add (Finite 0)
                 (map (\<lambda>i. f64_mul (f64_mul (chunks ! i) floatNum) (math_pow10 approx (15 * i)))
                    [0..<length chunks]))"
  using assms by (simp add: bigxnum2num_def Let_def sum_chunks_weights)

text \<open>
  Claim C1. The chunks are cut from the right, 15 digits each, with the most
  significant chunk at index 0, but the sum weighs the chunk at index \<open>i\<close> with
  \<open>10^(15 * i)\<close> instead of \<open>10^(15 * (numChunks - 1 - i))\<close>. For \<open>10^15\<close>, whose chunks
  are 1 and 0, and the factor 1 the code returns 1, where the sum the claim describes
  is \<open>10^15\<close>.
\<close>

theorem bigxnum2num_reverses_weights:
  "make_chunks (bigint_toString (10 ^ 15)) (length (bigint_toString (10 ^ 15))) [] =
     [Finite 1, Finite 0] \<and>
   bigxnum2num approx (10 ^ 15) (Finite 1) = Finite 1 \<and>
   spec_approximateWithFactor approx (10 ^ 15) (Finite 1) = Finite (10 ^ 15)"
  by code_simp

text \<open>
  Claim C2. With the weights reversed the result for \<open>10^15\<close> and the factor 1 is 1: its
  relative error is far above the binary64 epsilon times the two chunks.
\<close>

theorem bigxnum2num_relative_error:
  "bigxnum2num approx (10 ^ 15) (Finite 1) = Finite 1 \<and>
   num_chunks (10 ^ 15) = 2 \<and>
   \<not> \<bar>1 - 10 ^ 15\<bar> / 10 ^ 15 \<le> float64_epsilon * of_nat (num_chunks (10 ^ 15))"
  by code_simp

end
